theory Spec2Isabelle
  imports Main "HOL-Library.AList" "HOL-Library.Sublist" "HOL-Library.Char_ord"
    "HOL-Library.List_Lexorder"
begin

section \<open>Data model of \<^verbatim>\<open>Model.js\<close>\<close>

text \<open>
  JavaScript objects and \<^verbatim>\<open>Map\<close>s keyed by strings are association lists in
  insertion order; writing an existing key replaces the value in place
  (\<^const>\<open>AList.update\<close>), reading is \<^const>\<open>map_of\<close>. Reading a property of
  \<^verbatim>\<open>undefined\<close> throws, which is the error \<open>TypeError\<close> below.
  Strings are compared by code unit, the order of \<^verbatim>\<open>Array.prototype.sort\<close>.
  \<open>LayerError\<close> is an exception thrown by a layer's \<^verbatim>\<open>call\<close>;
  \<open>TraversalError\<close> is the rejection of \<^verbatim>\<open>_traverseDAG\<close>: the exception of one of
  its branches, a layer's or a \<open>TypeError\<close>.
\<close>

datatype error =
  ConfigurationError | UnknownLayerClassError | MissingWeightError | RangeError | SyntaxError
  | InvalidInputError | TypeError | LayerError | TraversalError | ArtifactLoadError

text \<open>A \<^verbatim>\<open>Tensor\<close>: \<^verbatim>\<open>tensor.data\<close>, \<^verbatim>\<open>tensor.shape\<close>, and the pipeline
  attributes \<^verbatim>\<open>_fromPipeline\<close>, \<^verbatim>\<open>_actualShape\<close>, \<^verbatim>\<open>weblasTensor\<close>.\<close>

record 'a tensor =
  tdata :: "'a list"
  tshape :: "nat list"
  fromPipeline :: bool
  actualShape :: "nat list"
  weblasTensor :: "'a list"

text \<open>The per-layer state that \<^verbatim>\<open>Model.js\<close> reads and writes on a layer object.\<close>

record 'a layer =
  lname :: string
  pipelineEnabled :: bool
  hasResult :: bool
  visited :: bool
  lresult :: "'a tensor option"

text \<open>An entry of \<^verbatim>\<open>this.modelDAG\<close>.\<close>

record dag_node =
  layerClass :: string
  nname :: string
  inbound :: "string list"
  outbound :: "string list"

text \<open>
  A weight tensor: \<^verbatim>\<open>new Float32Array(this.data.weights, offset, length)\<close> is a view of
  the raw buffer that starts at the byte \<open>byteOffset\<close> and has \<open>viewLength\<close>
  elements of four bytes; the tensor pairs it with a shape.
\<close>

record f32view =
  byteOffset :: nat
  viewLength :: nat

record weight_tensor =
  wdata :: f32view
  wshape :: "nat list"

text \<open>
  The fields of the \<^verbatim>\<open>Model\<close> instance that \<^verbatim>\<open>_createLayers\<close> builds and
  \<^verbatim>\<open>predict\<close> uses. \<open>layerWeights\<close> holds what \<^verbatim>\<open>layer.setWeights\<close> was
  given, by layer name.
  \<open>tensorsCreated\<close> and \<open>callLog\<close> are instrumentation and not fields of the
  source: the first counts the \<^verbatim>\<open>new Tensor(...)\<close> expressions evaluated by
  \<^verbatim>\<open>Model.js\<close>, the second lists, in order, the layers whose \<^verbatim>\<open>call\<close> was
  invoked.
\<close>

record 'a model =
  modelClass :: string
  modelLayersMap :: "(string \<times> 'a layer) list"
  modelDAG :: "(string \<times> dag_node) list"
  inputTensors :: "(string \<times> 'a tensor) list"
  layersWithResults :: "string list"
  isRunning :: bool
  layerCallPauses :: bool
  layerWeights :: "(string \<times> weight_tensor list) list"
  tensorsCreated :: nat
  callLog :: "string list"

text \<open>A value of \<^verbatim>\<open>inputData\<close>: a \<^verbatim>\<open>Float32Array\<close> or anything else.\<close>

datatype 'a jsval = Float32Array "'a list" | OtherValue

text \<open>What \<^verbatim>\<open>predict\<close> resolves to: an object of named buffers, or
  \<^verbatim>\<open>undefined\<close> when the model class is neither of the two known ones.\<close>

datatype 'a prediction = OutputData "(string \<times> 'a list) list" | Undefined

text \<open>The argument of a layer's \<^verbatim>\<open>call\<close>: one tensor, or an array of them
  for a \<^verbatim>\<open>Merge\<close> layer.\<close>

datatype 'a call_arg = Single "'a tensor" | Multi "'a tensor list"

text \<open>
  The layer classes are not part of \<^verbatim>\<open>Model.js\<close>: the methods it calls on a
  layer object are parameters of the model, indexed by the layer's name.
  \<open>layerCall\<close> is \<^verbatim>\<open>layer.call(x)\<close> (\<open>None\<close> when it throws),
  \<open>transferFromPipeline\<close> is \<^verbatim>\<open>layer.transferFromPipeline(x)\<close>.
\<close>

record 'a layers_impl =
  layerCall :: "string \<Rightarrow> 'a call_arg \<Rightarrow> 'a tensor option"
  transferFromPipeline :: "string \<Rightarrow> 'a tensor \<Rightarrow> 'a tensor"

text \<open>The state of one run of \<^verbatim>\<open>_traverseDAG\<close>: the model, the nodes whose
  single-node branch has still to run (in the order in which they run), and
  whether the promise of some branch was rejected.\<close>

record 'a sched =
  mdl :: "'a model"
  frontier :: "string list"
  rejected :: bool

datatype visit = Skip | Throw | Descend "string list" | Computed "string list"

section \<open>Tensor operations used by \<^verbatim>\<open>Model.js\<close>\<close>

text \<open>Modelled from the spec: the \<^verbatim>\<open>Tensor\<close> class is missing from the sources.
  \<^verbatim>\<open>new Tensor(data, shape)\<close> pairs a buffer with a shape, on the host backend.\<close>

definition newTensor :: "'a list \<Rightarrow> nat list \<Rightarrow> 'a tensor" where
  "newTensor d sh =
     \<lparr>tdata = d, tshape = sh, fromPipeline = False, actualShape = [], weblasTensor = []\<rparr>"

text \<open>Modelled from the spec: \<^verbatim>\<open>Tensor.replaceTensorData\<close> is missing from the
  sources; it installs the given buffer as the tensor's data.\<close>

definition replaceTensorData :: "'a tensor \<Rightarrow> 'a list \<Rightarrow> 'a tensor" where
  "replaceTensorData t d = t\<lparr>tdata := d\<rparr>"

text \<open>The copy at the level of the accelerated backend, lines 436-440: a new tensor
  of the same shape receives the weblas tensor and the actual shape.\<close>

definition copyWeblas :: "'a tensor \<Rightarrow> 'a tensor" where
  "copyWeblas x =
     (newTensor [] (tshape x))
       \<lparr>weblasTensor := weblasTensor x, fromPipeline := True, actualShape := actualShape x\<rparr>"

section \<open>Layer calls\<close>

definition invokeCall ::
  "'a layers_impl \<Rightarrow> 'a layer \<Rightarrow> 'a call_arg \<Rightarrow> 'a model \<Rightarrow> (error + 'a tensor) \<times> 'a model"
where
  "invokeCall impl l arg m =
     ((case layerCall impl (lname l) arg of None \<Rightarrow> Inl LayerError | Some r \<Rightarrow> Inr r),
      m\<lparr>callLog := callLog m @ [lname l]\<rparr>)"

text \<open>\<^verbatim>\<open>_regularLayerCall\<close> up to the call: the tensor that the consumer
  receives for the producer's result \<open>r\<close>.\<close>

definition regularInput ::
  "'a layers_impl \<Rightarrow> 'a layer \<Rightarrow> 'a layer \<Rightarrow> 'a tensor \<Rightarrow> bool \<Rightarrow> 'a model \<Rightarrow> 'a tensor \<times> 'a model"
where
  "regularInput impl currentLayer inboundLayer r copyBeforeCall m =
     (if \<not> fromPipeline r \<or> \<not> pipelineEnabled currentLayer then
        if fromPipeline r then (transferFromPipeline impl (lname inboundLayer) r, m)
        else if copyBeforeCall then
          (newTensor (tdata r) (tshape r), m\<lparr>tensorsCreated := Suc (tensorsCreated m)\<rparr>)
        else (r, m)
      else if copyBeforeCall then
        (copyWeblas r, m\<lparr>tensorsCreated := Suc (tensorsCreated m)\<rparr>)
      else (r, m))"

definition regularLayerCall ::
  "'a layers_impl \<Rightarrow> 'a layer \<Rightarrow> 'a layer option \<Rightarrow> bool \<Rightarrow> 'a model
    \<Rightarrow> (error + 'a tensor) \<times> 'a model"
where
  "regularLayerCall impl currentLayer inboundLayer copyBeforeCall m =
     (case inboundLayer of
        None \<Rightarrow> (Inl TypeError, m)
      | Some inb \<Rightarrow>
          (case lresult inb of
             None \<Rightarrow> (Inl TypeError, m)
           | Some r \<Rightarrow>
               (case regularInput impl currentLayer inb r copyBeforeCall m of
                  (x, m1) \<Rightarrow> invokeCall impl currentLayer (Single x) m1)))"

text \<open>\<^verbatim>\<open>inputs.every(x => x._fromPipeline)\<close>: it stops at the first input that is
  not from the pipeline, and throws on an input that is \<^verbatim>\<open>undefined\<close>.\<close>

fun canRunInPipeline :: "'a tensor option list \<Rightarrow> bool option" where
  "canRunInPipeline [] = Some True"
| "canRunInPipeline (None # xs) = None"
| "canRunInPipeline (Some x # xs) = (if fromPipeline x then canRunInPipeline xs else Some False)"

text \<open>The first \<^verbatim>\<open>inputs.map\<close> of \<^verbatim>\<open>_mergeLayerCall\<close> (lines 379-388).\<close>

fun hostInputs ::
  "'a layers_impl \<Rightarrow> bool \<Rightarrow> 'a layer list \<Rightarrow> 'a model \<Rightarrow> (error + 'a tensor list) \<times> 'a model"
where
  "hostInputs impl copyBeforeCall [] m = (Inr [], m)"
| "hostInputs impl copyBeforeCall (l # ls) m =
     (case lresult l of
        None \<Rightarrow> (Inl TypeError, m)
      | Some x \<Rightarrow>
          (case (if fromPipeline x then (transferFromPipeline impl (lname l) x, m)
                 else if copyBeforeCall then
                   (newTensor (tdata x) (tshape x), m\<lparr>tensorsCreated := Suc (tensorsCreated m)\<rparr>)
                 else (x, m)) of
             (y, m1) \<Rightarrow>
               (case hostInputs impl copyBeforeCall ls m1 of
                  (Inl e, m2) \<Rightarrow> (Inl e, m2)
                | (Inr ys, m2) \<Rightarrow> (Inr (y # ys), m2))))"

text \<open>The second \<^verbatim>\<open>inputs.map\<close> (lines 394-400); every input is defined there.\<close>

fun pipelineInputs :: "'a tensor option list \<Rightarrow> 'a model \<Rightarrow> (error + 'a tensor list) \<times> 'a model" where
  "pipelineInputs [] m = (Inr [], m)"
| "pipelineInputs (None # xs) m = (Inl TypeError, m)"
| "pipelineInputs (Some x # xs) m =
     (case pipelineInputs xs (m\<lparr>tensorsCreated := Suc (tensorsCreated m)\<rparr>) of
        (Inl e, m2) \<Rightarrow> (Inl e, m2)
      | (Inr ys, m2) \<Rightarrow> (Inr (copyWeblas x # ys), m2))"

definition mergeInputs ::
  "'a layers_impl \<Rightarrow> 'a layer \<Rightarrow> 'a layer list \<Rightarrow> bool \<Rightarrow> 'a model
    \<Rightarrow> (error + 'a tensor list) \<times> 'a model"
where
  "mergeInputs impl currentLayer inboundLayers copyBeforeCall m =
     (case canRunInPipeline (map lresult inboundLayers) of
        None \<Rightarrow> (Inl TypeError, m)
      | Some can \<Rightarrow>
          if \<not> can \<or> \<not> pipelineEnabled currentLayer then
            hostInputs impl copyBeforeCall inboundLayers m
          else if copyBeforeCall then pipelineInputs (map lresult inboundLayers) m
          else (case those (map lresult inboundLayers) of
                  None \<Rightarrow> (Inl TypeError, m)
                | Some xs \<Rightarrow> (Inr xs, m)))"

definition mergeLayerCall ::
  "'a layers_impl \<Rightarrow> 'a layer \<Rightarrow> 'a layer list \<Rightarrow> bool \<Rightarrow> 'a model
    \<Rightarrow> (error + 'a tensor) \<times> 'a model"
where
  "mergeLayerCall impl currentLayer inboundLayers copyBeforeCall m =
     (case mergeInputs impl currentLayer inboundLayers copyBeforeCall m of
        (Inl e, m1) \<Rightarrow> (Inl e, m1)
      | (Inr xs, m1) \<Rightarrow> invokeCall impl currentLayer (Multi xs) m1)"

section \<open>\<^verbatim>\<open>_traverseDAG\<close>\<close>

text \<open>\<^verbatim>\<open>names.map(n => table[n])\<close> followed by a property read of every element:
  \<open>None\<close> when some name is missing, which throws there.\<close>

definition lookupAll :: "(string \<times> 'v) list \<Rightarrow> string list \<Rightarrow> 'v list option" where
  "lookupAll table names = those (map (map_of table) names)"

text \<open>\<^verbatim>\<open>numSiblingNodes\<close> and \<^verbatim>\<open>copyBeforeCall\<close>, lines 480-483.\<close>

definition numSiblingNodes :: "dag_node list \<Rightarrow> nat" where
  "numSiblingNodes inboundNodes = foldl (\<lambda>num ob. num + length ob) 0 (map outbound inboundNodes)"

definition copyBeforeCall :: "dag_node list \<Rightarrow> bool" where
  "copyBeforeCall inboundNodes = (numSiblingNodes inboundNodes \<ge> 1)"

text \<open>Lines 484 and 492-494: the result is stored in the layer, both flags are set
  and the layer's name is pushed on \<^verbatim>\<open>layersWithResults\<close>.\<close>

definition storeResult :: "string \<Rightarrow> 'a layer \<Rightarrow> 'a tensor \<Rightarrow> 'a model \<Rightarrow> 'a model" where
  "storeResult node currentLayer res m =
     m\<lparr>modelLayersMap :=
         AList.update node
           (currentLayer\<lparr>lresult := Some res, hasResult := True, visited := True\<rparr>)
           (modelLayersMap m),
       layersWithResults := layersWithResults m @ [lname currentLayer]\<rparr>"

text \<open>
  The branch \<^verbatim>\<open>nodes.length === 1\<close> for the node \<open>node\<close>, up to the recursive
  call: \<open>Skip\<close> is \<^verbatim>\<open>return false\<close>, \<open>Throw\<close> an exception (the promise of the
  branch is rejected), \<open>Descend\<close> the immediate recursion into the outbound nodes
  of an input layer, \<open>Computed\<close> the recursion after a layer call.
\<close>

definition traverseNode :: "'a layers_impl \<Rightarrow> 'a model \<Rightarrow> string \<Rightarrow> visit \<times> 'a model" where
  "traverseNode impl m node =
     (case map_of (modelDAG m) node of
        None \<Rightarrow> (Throw, m)
      | Some nd \<Rightarrow>
          if layerClass nd \<noteq> ''InputLayer'' then
            (case map_of (modelLayersMap m) node of
               None \<Rightarrow> (Throw, m)
             | Some currentLayer \<Rightarrow>
                 if visited currentLayer then (Skip, m)
                 else
                   (case lookupAll (modelLayersMap m) (inbound nd) of
                      None \<Rightarrow> (Throw, m)
                    | Some inboundLayers \<Rightarrow>
                        if \<not> list_all hasResult inboundLayers then (Skip, m)
                        else
                          (case lookupAll (modelDAG m) (inbound nd) of
                             None \<Rightarrow> (Throw, m)
                           | Some inboundNodes \<Rightarrow>
                               (case (if layerClass nd = ''Merge''
                                      then mergeLayerCall impl currentLayer inboundLayers
                                             (copyBeforeCall inboundNodes) m
                                      else regularLayerCall impl currentLayer
                                             (case inboundLayers of [] \<Rightarrow> None | l # _ \<Rightarrow> Some l)
                                             (copyBeforeCall inboundNodes) m) of
                                  (Inl e, m1) \<Rightarrow> (Throw, m1)
                                | (Inr res, m1) \<Rightarrow>
                                    (Computed (outbound nd),
                                     storeResult node currentLayer res m1)))))
          else (Descend (outbound nd), m))"

text \<open>
  One single-node branch of the traversal. Every statement of \<^verbatim>\<open>_traverseDAG\<close>
  that touches the model runs before the first \<^verbatim>\<open>await\<close> of its call, so the
  calls made by \<^verbatim>\<open>nodes.map(node => this._traverseDAG([node]))\<close> run one after
  the other, each to its own recursive call: without \<^verbatim>\<open>layerCallPauses\<close> the
  outbound nodes of a node are visited before its siblings; with it, the branch is
  suspended by \<^verbatim>\<open>Promise.delay(0)\<close> after the layer call and its outbound nodes
  are visited after everything already scheduled. A rejected branch does not stop the
  other branches.
\<close>

definition step :: "'a layers_impl \<Rightarrow> 'a sched \<Rightarrow> 'a sched" where
  "step impl s =
     (case frontier s of
        [] \<Rightarrow> s
      | node # rest \<Rightarrow>
          (case traverseNode impl (mdl s) node of
             (Skip, m) \<Rightarrow> s\<lparr>mdl := m, frontier := rest\<rparr>
           | (Throw, m) \<Rightarrow> s\<lparr>mdl := m, frontier := rest, rejected := True\<rparr>
           | (Descend out, m) \<Rightarrow> s\<lparr>mdl := m, frontier := out @ rest\<rparr>
           | (Computed out, m) \<Rightarrow>
               s\<lparr>mdl := m,
                 frontier := (if layerCallPauses m then rest @ out else out @ rest)\<rparr>))"

text \<open>The traversal runs until no branch is left; it need not end on a graph with a
  cycle through input layers, so it takes fuel: \<open>None\<close> is a run that has not ended
  after \<open>fuel\<close> branches.\<close>

fun traverseDAG :: "'a layers_impl \<Rightarrow> nat \<Rightarrow> 'a sched \<Rightarrow> 'a sched option" where
  "traverseDAG impl 0 s = (if frontier s = [] then Some s else None)"
| "traverseDAG impl (Suc fuel) s =
     (if frontier s = [] then Some s else traverseDAG impl fuel (step impl s))"

section \<open>\<^verbatim>\<open>predict\<close>\<close>

definition keys :: "(string \<times> 'v) list \<Rightarrow> string list" where
  "keys obj = map fst obj"

definition isFloat32Array :: "'a jsval option \<Rightarrow> bool" where
  "isFloat32Array v = (case v of Some (Float32Array d) \<Rightarrow> True | _ \<Rightarrow> False)"

text \<open>The two checks of lines 518-535.\<close>

definition namesOk :: "(string \<times> 'a jsval) list \<Rightarrow> 'a model \<Rightarrow> bool" where
  "namesOk inputData m = (sort (keys inputData) = sort (keys (inputTensors m)))"

definition valuesOk :: "(string \<times> 'a jsval) list \<Rightarrow> 'a model \<Rightarrow> bool" where
  "valuesOk inputData m =
     list_all (\<lambda>inputName. isFloat32Array (map_of inputData inputName))
       (sort (keys (inputTensors m)))"

text \<open>Lines 538-542.\<close>

definition resetLayers :: "'a model \<Rightarrow> 'a model" where
  "resetLayers m =
     m\<lparr>layersWithResults := [],
       modelLayersMap :=
         map (\<lambda>(k, l). (k, l\<lparr>hasResult := False, visited := False\<rparr>)) (modelLayersMap m)\<rparr>"

text \<open>Lines 545-551, for the input names in order.\<close>

fun seedInputs ::
  "'a layers_impl \<Rightarrow> (string \<times> 'a jsval) list \<Rightarrow> string list \<Rightarrow> 'a model
    \<Rightarrow> (error + unit) \<times> 'a model"
where
  "seedInputs impl inputData [] m = (Inr (), m)"
| "seedInputs impl inputData (inputName # rest) m =
     (case map_of (inputTensors m) inputName of
        None \<Rightarrow> (Inl TypeError, m)
      | Some t \<Rightarrow>
          (case map_of inputData inputName of
             Some (Float32Array d) \<Rightarrow>
               (let t' = replaceTensorData t d;
                    m1 = m\<lparr>inputTensors := AList.update inputName t' (inputTensors m)\<rparr>
                in case map_of (modelLayersMap m1) inputName of
                     None \<Rightarrow> (Inl TypeError, m1)
                   | Some inputLayer \<Rightarrow>
                       (case invokeCall impl inputLayer (Single t') m1 of
                          (Inl e, m2) \<Rightarrow> (Inl e, m2)
                        | (Inr r, m2) \<Rightarrow>
                            seedInputs impl inputData rest
                              (m2\<lparr>modelLayersMap :=
                                   AList.update inputName
                                     (inputLayer\<lparr>lresult := Some r, hasResult := True,
                                        visited := True\<rparr>)
                                     (modelLayersMap m2)\<rparr>)))
           | _ \<Rightarrow> (Inl TypeError, m)))"

text \<open>The buffer \<^verbatim>\<open>result.tensor.data\<close> of the layer of a node.\<close>

definition resultData :: "'a model \<Rightarrow> string \<Rightarrow> 'a list option" where
  "resultData m name =
     (case map_of (modelLayersMap m) name of
        None \<Rightarrow> None
      | Some l \<Rightarrow> (case lresult l of None \<Rightarrow> None | Some r \<Rightarrow> Some (tdata r)))"

text \<open>Lines 572-575: \<^verbatim>\<open>outputLayers.forEach\<close>.\<close>

fun collectOutputs ::
  "'a model \<Rightarrow> dag_node list \<Rightarrow> (string \<times> 'a list) list \<Rightarrow> error + (string \<times> 'a list) list"
where
  "collectOutputs m [] outputData = Inr outputData"
| "collectOutputs m (nd # nds) outputData =
     (case resultData m (nname nd) of
        None \<Rightarrow> Inl TypeError
      | Some d \<Rightarrow> collectOutputs m nds (AList.update (nname nd) d outputData))"

text \<open>Lines 556-578.\<close>

definition outputs :: "'a model \<Rightarrow> (error + 'a prediction) \<times> 'a model" where
  "outputs m =
     (if modelClass m = ''Sequential'' then
        (case find (\<lambda>nd. outbound nd = []) (map snd (modelDAG m)) of
           None \<Rightarrow> (Inl TypeError, m)
         | Some outputLayer \<Rightarrow>
             (case resultData m (nname outputLayer) of
                None \<Rightarrow> (Inl TypeError, m)
              | Some d \<Rightarrow> (Inr (OutputData [(''output'', d)]), m\<lparr>isRunning := False\<rparr>)))
      else if modelClass m = ''Model'' then
        (case collectOutputs m (filter (\<lambda>nd. outbound nd = []) (map snd (modelDAG m))) [] of
           Inl e \<Rightarrow> (Inl e, m)
         | Inr outputData \<Rightarrow> (Inr (OutputData outputData), m\<lparr>isRunning := False\<rparr>))
      else (Inr Undefined, m))"

text \<open>
  \<^verbatim>\<open>predict\<close>. The result is \<open>None\<close> when the traversal has not ended within the
  fuel; otherwise it is what the promise settles to (\<open>Inl\<close> a rejection) and the
  model once every branch of the traversal has run.
\<close>

definition predict ::
  "'a layers_impl \<Rightarrow> nat \<Rightarrow> (string \<times> 'a jsval) list \<Rightarrow> 'a model
    \<Rightarrow> ((error + 'a prediction) \<times> 'a model) option"
where
  "predict impl fuel inputData m0 =
     (let m = m0\<lparr>isRunning := True\<rparr>;
          inputNames = sort (keys (inputTensors m))
      in if \<not> namesOk inputData m then Some (Inl InvalidInputError, m\<lparr>isRunning := False\<rparr>)
         else if \<not> valuesOk inputData m then Some (Inl InvalidInputError, m\<lparr>isRunning := False\<rparr>)
         else
           (case seedInputs impl inputData inputNames (resetLayers m) of
              (Inl e, m1) \<Rightarrow> Some (Inl e, m1)
            | (Inr u, m1) \<Rightarrow>
                (case traverseDAG impl fuel \<lparr>mdl = m1, frontier = inputNames, rejected = False\<rparr> of
                   None \<Rightarrow> None
                 | Some s \<Rightarrow>
                     if rejected s then Some (Inl TraversalError, mdl s) else Some (outputs (mdl s)))))"

section \<open>Loading the artifacts: \<^verbatim>\<open>_initialize\<close> and \<^verbatim>\<open>_interrupt\<close>\<close>

text \<open>
  The state of a request sent by \<^verbatim>\<open>_dataRequest\<close>. \<open>requests\<close> holds the state of
  the request of each type; \<open>xhrs\<close> says whether \<^verbatim>\<open>this.xhrs[type]\<close> still holds the
  request (\<^verbatim>\<open>onload\<close> sets it to \<^verbatim>\<open>null\<close>, \<^verbatim>\<open>onerror\<close> only rejects).
\<close>

datatype request = InFlight | Loaded | Failed | Aborted

record loader =
  xhrs :: "(string \<times> bool) list"
  requests :: "(string \<times> request) list"

datatype 'a promise = Resolved 'a | Rejected error

text \<open>\<^verbatim>\<open>xhr.abort()\<close>: it ends a request that is in flight.\<close>

definition abortRequest :: "string \<Rightarrow> (string \<times> request) list \<Rightarrow> (string \<times> request) list" where
  "abortRequest type rs =
     (case map_of rs type of Some InFlight \<Rightarrow> AList.update type Aborted rs | _ \<Rightarrow> rs)"

text \<open>The loop of \<^verbatim>\<open>_interrupt\<close> over its array of types, and \<^verbatim>\<open>_interrupt\<close> with
  that array as it is written in the source.\<close>

fun interruptTypes :: "string list \<Rightarrow> loader \<Rightarrow> loader" where
  "interruptTypes [] l = l"
| "interruptTypes (type # types) l =
     interruptTypes types
       (if map_of (xhrs l) type = Some True
        then l\<lparr>requests := abortRequest type (requests l),
               xhrs := AList.update type False (xhrs l)\<rparr>
        else l)"

definition interrupt :: "loader \<Rightarrow> loader" where
  "interrupt l = interruptTypes [''model'', ''weights'', ''metdata''] l"

text \<open>The loader once the requests have reached the states \<open>rs\<close>, none aborted.\<close>

definition sent :: "(string \<times> request) list \<Rightarrow> loader" where
  "sent rs = \<lparr>xhrs = map (\<lambda>(type, r). (type, r \<noteq> Loaded)) rs, requests = rs\<rparr>"

text \<open>\<^verbatim>\<open>Promise.all\<close> of the requests when it settles: rejected if one has failed.\<close>

definition promiseAll :: "(string \<times> request) list \<Rightarrow> unit promise" where
  "promiseAll rs = (if Failed \<in> set (map snd rs) then Rejected ArtifactLoadError else Resolved ())"

text \<open>
  \<^verbatim>\<open>_initialize\<close>, that is the promise that \<^verbatim>\<open>ready()\<close> returns, and the loader
  when it settles. \<open>build\<close> is the exception of \<^verbatim>\<open>_createLayers\<close>, if it throws.
  The handler of \<^verbatim>\<open>.catch\<close> logs the error, calls \<^verbatim>\<open>_interrupt\<close> and returns.
\<close>

definition initialize :: "(string \<times> request) list \<Rightarrow> error option \<Rightarrow> unit promise \<times> loader" where
  "initialize rs build =
     (case promiseAll rs of
        Rejected err \<Rightarrow> (Resolved (), interrupt (sent rs))
      | Resolved u \<Rightarrow>
          (case build of
             None \<Rightarrow> (Resolved (), sent rs)
           | Some err \<Rightarrow> (Resolved (), interrupt (sent rs))))"

text \<open>Every request in flight is still held in \<^verbatim>\<open>this.xhrs\<close>; the request of a
  type is not in flight and \<^verbatim>\<open>this.xhrs\<close> does not hold it.\<close>

definition registered :: "loader \<Rightarrow> bool" where
  "registered l = (\<forall>t. map_of (requests l) t = Some InFlight \<longrightarrow> map_of (xhrs l) t = Some True)"

definition settledFor :: "loader \<Rightarrow> string \<Rightarrow> bool" where
  "settledFor l t = (map_of (requests l) t \<noteq> Some InFlight \<and> map_of (xhrs l) t \<noteq> Some True)"

section \<open>Binding the weights\<close>

text \<open>An entry of \<^verbatim>\<open>this.data.metadata\<close>.\<close>

record weight_meta =
  layer_name :: string
  weight_name :: string
  w_offset :: nat
  w_length :: nat
  w_shape :: "nat list"

text \<open>
  The regular expressions of the runtime are not part of \<^verbatim>\<open>Model.js\<close>:
  \<^verbatim>\<open>new RegExp(source)\<close> is a parameter, \<open>None\<close> when the constructor throws a
  \<^verbatim>\<open>SyntaxError\<close> and otherwise the function \<^verbatim>\<open>test\<close> of the expression.
\<close>

type_synonym regexp = "string \<Rightarrow> (string \<Rightarrow> bool) option"

text \<open>A name of letters, digits and underscores: none of its characters is special in a
  regular expression.\<close>

definition plainChar :: "char \<Rightarrow> bool" where
  "plainChar c =
     (c \<in> set ''abcdefghijklmnopqrstuvwxyzABCDEFGHIJKLMNOPQRSTUVWXYZ0123456789_'')"

definition plainName :: "string \<Rightarrow> bool" where
  "plainName s = list_all plainChar s"

text \<open>
  \<^verbatim>\<open>new RegExp(`^${weightName}`)\<close>, line 315. For a plain weight name the
  expression is the anchor followed by literal characters, and its \<^verbatim>\<open>test\<close> holds
  of the strings that start with the name; for any other name the expression is what
  the runtime makes of the source.
\<close>

definition weightRE :: "regexp \<Rightarrow> string \<Rightarrow> (string \<Rightarrow> bool) option" where
  "weightRE regExp weightName =
     (if plainName weightName then Some (prefix weightName) else regExp (''^'' @ weightName))"

text \<open>The value of the predicate given to \<^verbatim>\<open>find\<close>, lines 316-317, with the
  \<^verbatim>\<open>test\<close> of the expression.\<close>

definition weightMatches :: "(string \<Rightarrow> bool) \<Rightarrow> string \<Rightarrow> weight_meta \<Rightarrow> bool" where
  "weightMatches test layerName meta = (layer_name meta = layerName \<and> test (weight_name meta))"

text \<open>The typed-array constructor on a buffer of \<open>byteLength\<close> bytes: the offset must
  be a multiple of the element size and the view must lie within the buffer.\<close>

definition newFloat32Array :: "nat \<Rightarrow> nat \<Rightarrow> nat \<Rightarrow> error + f32view" where
  "newFloat32Array byteLength off len =
     (if off mod 4 \<noteq> 0 \<or> byteLength < off + 4 * len then Inl RangeError
      else Inr \<lparr>byteOffset = off, viewLength = len\<rparr>)"

text \<open>
  The function mapped over \<^verbatim>\<open>weightNames\<close>, lines 313-328. The predicate of
  \<^verbatim>\<open>find\<close> constructs the expression before anything else, once for every entry
  that \<^verbatim>\<open>find\<close> visits: a source that the constructor refuses throws at the first
  entry of the metadata, and is not looked at when there is no entry.
\<close>

definition bindWeight ::
  "regexp \<Rightarrow> weight_meta list \<Rightarrow> nat \<Rightarrow> string \<Rightarrow> string \<Rightarrow> error + weight_tensor"
where
  "bindWeight regExp metadata byteLength layerName weightName =
     (case weightRE regExp weightName of
        None \<Rightarrow> if metadata = [] then Inl MissingWeightError else Inl SyntaxError
      | Some test \<Rightarrow>
          (case find (weightMatches test layerName) metadata of
             None \<Rightarrow> Inl MissingWeightError
           | Some paramMetadata \<Rightarrow>
               (case newFloat32Array byteLength (w_offset paramMetadata) (w_length paramMetadata) of
                  Inl e \<Rightarrow> Inl e
                | Inr v \<Rightarrow> Inr \<lparr>wdata = v, wshape = w_shape paramMetadata\<rparr>)))"

fun bindWeights ::
  "regexp \<Rightarrow> weight_meta list \<Rightarrow> nat \<Rightarrow> string \<Rightarrow> string list \<Rightarrow> error + weight_tensor list"
where
  "bindWeights regExp metadata byteLength layerName [] = Inr []"
| "bindWeights regExp metadata byteLength layerName (weightName # weightNames) =
     (case bindWeight regExp metadata byteLength layerName weightName of
        Inl e \<Rightarrow> Inl e
      | Inr t \<Rightarrow>
          (case bindWeights regExp metadata byteLength layerName weightNames of
             Inl e \<Rightarrow> Inl e
           | Inr ts \<Rightarrow> Inr (t # ts)))"

section \<open>\<^verbatim>\<open>_createLayers\<close>\<close>

text \<open>
  A layer definition of the model configuration, with the fields that
  \<^verbatim>\<open>_createLayers\<close> reads: \<^verbatim>\<open>class_name\<close>, \<^verbatim>\<open>config.name\<close>,
  \<^verbatim>\<open>config.batch_input_shape\<close> (\<open>None\<close> when absent, a \<^verbatim>\<open>null\<close> dimension is
  \<open>None\<close>), the class and name of \<^verbatim>\<open>config.layer\<close> for a wrapper, and the layer
  names of \<^verbatim>\<open>inbound_nodes\<close>. The model configuration is its class and its list of
  layer definitions.
\<close>

record layer_def =
  class_name :: string
  config_name :: string
  batch_input_shape :: "nat option list option"
  wrapped :: "(string \<times> string) option"
  inbound_nodes :: "string list list"

record model_json =
  mclass :: string
  mlayers :: "layer_def list"

text \<open>
  The module \<^verbatim>\<open>./layers\<close> is not part of \<^verbatim>\<open>Model.js\<close>: which classes it has, the
  \<^verbatim>\<open>params\<close> of the layer built from a definition (of the layer itself, and of the
  forward, backward and inner layer of a wrapper) and its \<^verbatim>\<open>_pipelineEnabled\<close> are
  parameters.
\<close>

record layers_module =
  implemented :: "string \<Rightarrow> bool"
  params :: "layer_def \<Rightarrow> string list"
  forwardParams :: "layer_def \<Rightarrow> string list"
  backwardParams :: "layer_def \<Rightarrow> string list"
  innerParams :: "layer_def \<Rightarrow> string list"
  pipelineOf :: "layer_def \<Rightarrow> bool"

text \<open>The fields that the constructor initialises.\<close>

definition constructed :: "bool \<Rightarrow> 'a model" where
  "constructed pauses =
     \<lparr>modelClass = [], modelLayersMap = [], modelDAG = [], inputTensors = [],
      layersWithResults = [], isRunning = False, layerCallPauses = pauses,
      layerWeights = [], tensorsCreated = 0, callLog = []\<rparr>"

definition modelConfig :: "model_json \<Rightarrow> layer_def list" where
  "modelConfig j = (if mclass j = ''Sequential'' \<or> mclass j = ''Model'' then mlayers j else [])"

text \<open>\<^verbatim>\<open>s.replace(/forward/, 'backward')\<close>: the first occurrence is replaced.\<close>

fun replaceFirst :: "string \<Rightarrow> string \<Rightarrow> string \<Rightarrow> string" where
  "replaceFirst pat rep [] = (if pat = [] then rep else [])"
| "replaceFirst pat rep (c # cs) =
     (if prefix pat (c # cs) then rep @ drop (length pat) (c # cs)
      else c # replaceFirst pat rep cs)"

text \<open>Lines 294-311.\<close>

definition weightNames :: "layers_module \<Rightarrow> layer_def \<Rightarrow> error + string list" where
  "weightNames lm ld =
     (if class_name ld = ''Bidirectional'' then
        (case wrapped ld of
           None \<Rightarrow> Inl TypeError
         | Some (cls, forwardName) \<Rightarrow>
             Inr (map (\<lambda>param. forwardName @ ''_'' @ param) (forwardParams lm ld)
                  @ map (\<lambda>param. replaceFirst ''forward'' ''backward'' forwardName @ ''_'' @ param)
                      (backwardParams lm ld)))
      else if class_name ld = ''TimeDistributed'' then
        (case wrapped ld of
           None \<Rightarrow> Inl TypeError
         | Some (cls, name) \<Rightarrow> Inr (map (\<lambda>param. name @ ''_'' @ param) (innerParams lm ld)))
      else Inr (map (\<lambda>param. config_name ld @ ''_'' @ param) (params lm ld)))"

text \<open>The layer object: a wrapper needs \<^verbatim>\<open>config.layer\<close> and the class of the
  wrapped layer.\<close>

definition constructLayer :: "layers_module \<Rightarrow> layer_def \<Rightarrow> error + 'a layer" where
  "constructLayer lm ld =
     (if (class_name ld = ''Bidirectional'' \<or> class_name ld = ''TimeDistributed'')
         \<and> (case wrapped ld of None \<Rightarrow> True | Some (cls, name) \<Rightarrow> \<not> implemented lm cls)
      then Inl TypeError
      else Inr \<lparr>lname = config_name ld, pipelineEnabled = pipelineOf lm ld, hasResult = False,
                 visited = False, lresult = None\<rparr>)"

definition inputShape :: "nat option list \<Rightarrow> nat list" where
  "inputShape batchShape = map (\<lambda>d. case d of None \<Rightarrow> 0 | Some n \<Rightarrow> n) (drop 1 batchShape)"

definition emptyNode :: "string \<Rightarrow> string \<Rightarrow> dag_node" where
  "emptyNode cls name = \<lparr>layerClass = cls, nname = name, inbound = [], outbound = []\<rparr>"

text \<open>\<^verbatim>\<open>this.modelDAG[a].inbound.push(b)\<close> and \<^verbatim>\<open>this.modelDAG[a].outbound.push(b)\<close>;
  \<open>None\<close> when the node is missing.\<close>

definition pushInbound :: "string \<Rightarrow> string \<Rightarrow> (string \<times> dag_node) list \<Rightarrow> (string \<times> dag_node) list option" where
  "pushInbound a b dag =
     (case map_of dag a of
        None \<Rightarrow> None
      | Some nd \<Rightarrow> Some (AList.update a (nd\<lparr>inbound := inbound nd @ [b]\<rparr>) dag))"

definition pushOutbound :: "string \<Rightarrow> string \<Rightarrow> (string \<times> dag_node) list \<Rightarrow> (string \<times> dag_node) list option" where
  "pushOutbound a b dag =
     (case map_of dag a of
        None \<Rightarrow> None
      | Some nd \<Rightarrow> Some (AList.update a (nd\<lparr>outbound := outbound nd @ [b]\<rparr>) dag))"

text \<open>Lines 352-356, for the names of \<^verbatim>\<open>inbound_nodes[0]\<close>.\<close>

fun connectInbound :: "string \<Rightarrow> string list \<Rightarrow> (string \<times> dag_node) list \<Rightarrow> (string \<times> dag_node) list option" where
  "connectInbound name [] dag = Some dag"
| "connectInbound name (inboundLayerName # rest) dag =
     (case pushInbound name inboundLayerName dag of
        None \<Rightarrow> None
      | Some dag1 \<Rightarrow>
          (case pushOutbound inboundLayerName name dag1 of
             None \<Rightarrow> None
           | Some dag2 \<Rightarrow> connectInbound name rest dag2))"

text \<open>Lines 229-249: the input layer of a sequential model, the input tensor of an
  input layer of a graph model.\<close>

definition createInput :: "string \<Rightarrow> nat \<Rightarrow> layer_def \<Rightarrow> 'a model \<Rightarrow> error + 'a model" where
  "createInput cls index ld m =
     (if cls = ''Sequential'' \<and> index = 0 then
        (case batch_input_shape ld of
           None \<Rightarrow> Inl TypeError
         | Some batchShape \<Rightarrow>
             Inr (m\<lparr>modelLayersMap :=
                      AList.update ''input''
                        \<lparr>lname = ''input'', pipelineEnabled = False, hasResult = False,
                           visited = False, lresult = None\<rparr> (modelLayersMap m),
                    modelDAG := AList.update ''input'' (emptyNode ''InputLayer'' ''input'') (modelDAG m),
                    inputTensors :=
                      AList.update ''input'' (newTensor [] (inputShape batchShape)) (inputTensors m),
                    tensorsCreated := Suc (tensorsCreated m)\<rparr>))
      else if cls = ''Model'' \<and> class_name ld = ''InputLayer'' then
        (case batch_input_shape ld of
           None \<Rightarrow> Inl TypeError
         | Some batchShape \<Rightarrow>
             Inr (m\<lparr>inputTensors :=
                      AList.update (config_name ld) (newTensor [] (inputShape batchShape))
                        (inputTensors m),
                    tensorsCreated := Suc (tensorsCreated m)\<rparr>))
      else Inr m)"

text \<open>Lines 340-358: the edges of the new node.\<close>

definition connect ::
  "string \<Rightarrow> layer_def list \<Rightarrow> nat \<Rightarrow> layer_def \<Rightarrow> (string \<times> dag_node) list
    \<Rightarrow> (string \<times> dag_node) list option"
where
  "connect cls config index ld dag =
     (if cls = ''Sequential'' then
        if index = 0 then
          (case pushOutbound ''input'' (config_name ld) dag of
             None \<Rightarrow> None
           | Some dag1 \<Rightarrow> pushInbound (config_name ld) ''input'' dag1)
        else if length config < index then None
        else
          (case pushInbound (config_name ld) (config_name (config ! (index - 1))) dag of
             None \<Rightarrow> None
           | Some dag1 \<Rightarrow> pushOutbound (config_name (config ! (index - 1))) (config_name ld) dag1)
      else if cls = ''Model'' then
        (case inbound_nodes ld of
           [] \<Rightarrow> Some dag
         | first # others \<Rightarrow> connectInbound (config_name ld) first dag)
      else Some dag)"

text \<open>The body of \<^verbatim>\<open>modelConfig.forEach\<close> for the definition \<open>ld\<close> at \<open>index\<close>; an
  exception ends \<^verbatim>\<open>_createLayers\<close>.\<close>

definition createLayer ::
  "regexp \<Rightarrow> layers_module \<Rightarrow> weight_meta list \<Rightarrow> nat \<Rightarrow> string \<Rightarrow> layer_def list \<Rightarrow> nat \<Rightarrow> layer_def
    \<Rightarrow> 'a model \<Rightarrow> error + 'a model"
where
  "createLayer regExp lm metadata byteLength cls config index ld m =
     (if \<not> implemented lm (class_name ld) then Inl UnknownLayerClassError
      else
        (case createInput cls index ld m of
           Inl e \<Rightarrow> Inl e
         | Inr m1 \<Rightarrow>
             (case constructLayer lm ld of
                Inl e \<Rightarrow> Inl e
              | Inr layer \<Rightarrow>
                  (case weightNames lm ld of
                     Inl e \<Rightarrow> Inl e
                   | Inr names \<Rightarrow>
                       (case bindWeights regExp metadata byteLength (config_name ld) names of
                          Inl e \<Rightarrow> Inl e
                        | Inr weights \<Rightarrow>
                            (case connect cls config index ld
                                    (AList.update (config_name ld)
                                       (emptyNode (class_name ld) (config_name ld)) (modelDAG m1)) of
                               None \<Rightarrow> Inl TypeError
                             | Some dag \<Rightarrow>
                                 Inr (m1\<lparr>modelLayersMap :=
                                          AList.update (config_name ld) layer (modelLayersMap m1),
                                        modelDAG := dag,
                                        layerWeights :=
                                          (if names = [] then layerWeights m1
                                           else AList.update (config_name ld) weights
                                                  (layerWeights m1))\<rparr>)))))))"

fun createLayersFrom ::
  "regexp \<Rightarrow> layers_module \<Rightarrow> weight_meta list \<Rightarrow> nat \<Rightarrow> string \<Rightarrow> layer_def list \<Rightarrow> nat \<Rightarrow> layer_def list
    \<Rightarrow> 'a model \<Rightarrow> error + 'a model"
where
  "createLayersFrom regExp lm metadata byteLength cls config index [] m = Inr m"
| "createLayersFrom regExp lm metadata byteLength cls config index (ld # lds) m =
     (case createLayer regExp lm metadata byteLength cls config index ld m of
        Inl e \<Rightarrow> Inl e
      | Inr m1 \<Rightarrow> createLayersFrom regExp lm metadata byteLength cls config (Suc index) lds m1)"

text \<open>\<^verbatim>\<open>_createLayers\<close> on a constructed model, with the regular expressions
  of the runtime, the layers module, the model configuration, the metadata and the size
  of the weights buffer.\<close>

definition createLayers ::
  "regexp \<Rightarrow> layers_module \<Rightarrow> model_json \<Rightarrow> weight_meta list \<Rightarrow> nat \<Rightarrow> 'a model \<Rightarrow> error + 'a model"
where
  "createLayers regExp lm j metadata byteLength m =
     createLayersFrom regExp lm metadata byteLength (mclass j) (modelConfig j) 0 (modelConfig j)
       (m\<lparr>modelClass := mclass j\<rparr>)"

section \<open>Well-formed graphs\<close>

text \<open>
  The graphs that \<^verbatim>\<open>_createLayers\<close> builds from a Keras configuration: node
  names are distinct, every node has its layer, the input layers are the nodes
  without inbound nodes and are the keys of \<^verbatim>\<open>inputTensors\<close>, of which there is
  at least one, \<^verbatim>\<open>inbound\<close> and \<^verbatim>\<open>outbound\<close> mirror each other, and every
  node is inserted after its inbound nodes (so the graph is acyclic).
\<close>

fun topoOrdered :: "string list \<Rightarrow> (string \<times> dag_node) list \<Rightarrow> bool" where
  "topoOrdered seen [] = True"
| "topoOrdered seen ((k, nd) # rest) =
     (list_all (\<lambda>p. p \<in> set seen) (inbound nd) \<and> topoOrdered (k # seen) rest)"

definition nodeOk :: "'a model \<Rightarrow> string \<times> dag_node \<Rightarrow> bool" where
  "nodeOk m = (\<lambda>(k, nd).
     nname nd = k \<and>
     (case map_of (modelLayersMap m) k of None \<Rightarrow> False | Some l \<Rightarrow> lname l = k) \<and>
     ((layerClass nd = ''InputLayer'') = (k \<in> set (keys (inputTensors m)))) \<and>
     ((layerClass nd = ''InputLayer'') = (inbound nd = [])) \<and>
     list_all (\<lambda>p. case map_of (modelDAG m) p of None \<Rightarrow> False
                    | Some pn \<Rightarrow> k \<in> set (outbound pn)) (inbound nd) \<and>
     list_all (\<lambda>c. case map_of (modelDAG m) c of None \<Rightarrow> False
                    | Some cn \<Rightarrow> k \<in> set (inbound cn)) (outbound nd))"

definition validDAG :: "'a model \<Rightarrow> bool" where
  "validDAG m =
     (distinct (keys (modelDAG m)) \<and> distinct (keys (inputTensors m)) \<and>
      keys (inputTensors m) \<noteq> [] \<and>
      list_all (\<lambda>k. k \<in> set (keys (modelDAG m))) (keys (inputTensors m)) \<and>
      list_all (nodeOk m) (modelDAG m) \<and>
      topoOrdered [] (modelDAG m))"

text \<open>No layer's \<^verbatim>\<open>call\<close> throws.\<close>

definition callsSucceed :: "'a layers_impl \<Rightarrow> bool" where
  "callsSucceed impl = (\<forall>name arg. layerCall impl name arg \<noteq> None)"

text \<open>Whether the layer of a node has its result.\<close>

definition computed :: "'a model \<Rightarrow> string \<Rightarrow> bool" where
  "computed m k = (case map_of (modelLayersMap m) k of None \<Rightarrow> False | Some l \<Rightarrow> hasResult l)"

section \<open>The invariant of the traversal\<close>

text \<open>The definitions of this section state the invariant that the traversal keeps
  on a well-formed graph, and the measure that bounds its length.\<close>

definition isInputNode :: "'a model \<Rightarrow> string \<Rightarrow> bool" where
  "isInputNode m k =
     (case map_of (modelDAG m) k of None \<Rightarrow> False | Some nd \<Rightarrow> layerClass nd = ''InputLayer'')"

definition layerOk :: "'a model \<Rightarrow> string \<Rightarrow> bool" where
  "layerOk m k =
     (case map_of (modelLayersMap m) k of
        None \<Rightarrow> False
      | Some l \<Rightarrow> lname l = k \<and> visited l = hasResult l \<and> (hasResult l \<longrightarrow> lresult l \<noteq> None))"

definition branchWeight :: "'a model \<Rightarrow> string \<Rightarrow> nat" where
  "branchWeight m k =
     (case map_of (modelDAG m) k of
        None \<Rightarrow> 1
      | Some nd \<Rightarrow> if layerClass nd = ''InputLayer'' then Suc (length (outbound nd)) else 1)"

definition pendingEdges :: "'a model \<Rightarrow> nat" where
  "pendingEdges m =
     sum_list (map (\<lambda>(k, nd). if layerClass nd = ''InputLayer'' \<or> computed m k then 0
                              else length (outbound nd)) (modelDAG m))"

definition remaining :: "'a sched \<Rightarrow> nat" where
  "remaining s = sum_list (map (branchWeight (mdl s)) (frontier s)) + pendingEdges (mdl s)"

definition coverage :: "'a model \<Rightarrow> (string \<Rightarrow> bool) \<Rightarrow> string set \<Rightarrow> bool" where
  "coverage m0 C F =
     (\<forall>k nd. map_of (modelDAG m0) k = Some nd \<and> layerClass nd \<noteq> ''InputLayer'' \<and> \<not> C k \<longrightarrow>
        (\<exists>p \<in> set (inbound nd). \<not> C p) \<or> k \<in> F
        \<or> (\<exists>p \<in> set (inbound nd). p \<in> F \<and> isInputNode m0 p))"

definition schedInv :: "'a model \<Rightarrow> 'a sched \<Rightarrow> bool" where
  "schedInv m0 s =
     (modelDAG (mdl s) = modelDAG m0 \<and>
      \<not> rejected s \<and>
      set (frontier s) \<subseteq> set (keys (modelDAG m0)) \<and>
      (\<forall>k nd. map_of (modelDAG m0) k = Some nd \<longrightarrow>
         layerOk (mdl s) k \<and> (layerClass nd = ''InputLayer'' \<longrightarrow> computed (mdl s) k)) \<and>
      coverage m0 (computed (mdl s)) (set (frontier s)) \<and>
      (\<exists>log. callLog (mdl s) = callLog m0 @ log \<and> distinct log
         \<and> set log = {k \<in> set (keys (modelDAG m0)). computed (mdl s) k}))"

text \<open>A bound on the number of branches that the traversal of a well-formed
  graph runs: the branches of the inputs, and one for each edge.\<close>

definition fuelBound :: "'a model \<Rightarrow> nat" where
  "fuelBound m =
     sum_list (map (branchWeight m) (sort (keys (inputTensors m))))
     + sum_list (map (\<lambda>(k, nd). length (outbound nd)) (modelDAG m))"

definition weakInv :: "'a model \<Rightarrow> 'a sched \<Rightarrow> bool" where
  "weakInv m0 s =
     (modelDAG (mdl s) = modelDAG m0 \<and> set (frontier s) \<subseteq> set (keys (modelDAG m0)) \<and>
      (\<forall>k \<in> set (keys (modelDAG m0)). layerOk (mdl s) k))"

text \<open>
  The argument that the code hands to the \<^verbatim>\<open>call\<close> of a layer, read from the model:
  for an input layer its input tensor (line 548); for any other layer what
  \<^verbatim>\<open>_mergeLayerCall\<close> or \<^verbatim>\<open>_regularLayerCall\<close> prepares, before the call, from the
  results of the layers of the inbound nodes (lines 370-401 and 414-441).
\<close>

definition layerInput ::
  "'a layers_impl \<Rightarrow> string \<Rightarrow> 'a layer \<Rightarrow> 'a layer list \<Rightarrow> bool \<Rightarrow> 'a model
    \<Rightarrow> 'a call_arg option"
where
  "layerInput impl cls currentLayer inboundLayers copy m =
     (if cls = ''Merge'' then
        (case fst (mergeInputs impl currentLayer inboundLayers copy m) of
           Inl e \<Rightarrow> None
         | Inr xs \<Rightarrow> Some (Multi xs))
      else
        (case inboundLayers of
           [] \<Rightarrow> None
         | inb # _ \<Rightarrow>
             (case lresult inb of
                None \<Rightarrow> None
              | Some r \<Rightarrow> Some (Single (fst (regularInput impl currentLayer inb r copy m))))))"

definition callArgument ::
  "'a layers_impl \<Rightarrow> 'a model \<Rightarrow> string \<Rightarrow> dag_node \<Rightarrow> 'a call_arg option"
where
  "callArgument impl m k nd =
     (if layerClass nd = ''InputLayer'' then map_option Single (map_of (inputTensors m) k)
      else
        (case map_of (modelLayersMap m) k of
           None \<Rightarrow> None
         | Some currentLayer \<Rightarrow>
             (case lookupAll (modelLayersMap m) (inbound nd) of
                None \<Rightarrow> None
              | Some inboundLayers \<Rightarrow>
                  (case lookupAll (modelDAG m) (inbound nd) of
                     None \<Rightarrow> None
                   | Some inboundNodes \<Rightarrow>
                       layerInput impl (layerClass nd) currentLayer inboundLayers
                         (copyBeforeCall inboundNodes) m))))"

text \<open>Every layer that has its result has the result of its \<^verbatim>\<open>call\<close> on that
  argument, and the layers of its inbound nodes have theirs.\<close>

definition resultsInv :: "'a layers_impl \<Rightarrow> 'a model \<Rightarrow> bool" where
  "resultsInv impl m =
     (\<forall>k nd l. map_of (modelDAG m) k = Some nd \<and> map_of (modelLayersMap m) k = Some l \<and> hasResult l \<longrightarrow>
        (\<exists>arg. callArgument impl m k nd = Some arg \<and> lresult l = layerCall impl k arg
           \<and> lresult l \<noteq> None)
        \<and> (\<forall>p \<in> set (inbound nd). computed m p))"

section \<open>The states of a call of \<^verbatim>\<open>predict\<close>\<close>

text \<open>The model after the reset and the first \<open>j\<close> iterations of the loop over the
  input names (or where that loop threw).\<close>

definition seedState ::
  "'a layers_impl \<Rightarrow> (string \<times> 'a jsval) list \<Rightarrow> 'a model \<Rightarrow> nat \<Rightarrow> 'a model"
where
  "seedState impl inputData m j =
     snd (seedInputs impl inputData (take j (sort (keys (inputTensors m))))
            (resetLayers (m\<lparr>isRunning := True\<rparr>)))"

text \<open>The traversal as \<^verbatim>\<open>predict\<close> starts it, and after \<open>n\<close> of its branches.\<close>

definition schedStart ::
  "'a layers_impl \<Rightarrow> (string \<times> 'a jsval) list \<Rightarrow> 'a model \<Rightarrow> 'a sched"
where
  "schedStart impl inputData m =
     \<lparr>mdl = seedState impl inputData m (length (inputTensors m)),
      frontier = sort (keys (inputTensors m)), rejected = False\<rparr>"

definition schedAt ::
  "'a layers_impl \<Rightarrow> (string \<times> 'a jsval) list \<Rightarrow> 'a model \<Rightarrow> nat \<Rightarrow> 'a sched"
where
  "schedAt impl inputData m n = (step impl ^^ n) (schedStart impl inputData m)"

text \<open>The loop over the input names has not thrown.\<close>

definition seeded :: "'a layers_impl \<Rightarrow> (string \<times> 'a jsval) list \<Rightarrow> 'a model \<Rightarrow> bool" where
  "seeded impl inputData m =
     (fst (seedInputs impl inputData (sort (keys (inputTensors m)))
             (resetLayers (m\<lparr>isRunning := True\<rparr>))) = Inr ())"

text \<open>Whether the layer of a node is marked visited; the two flags agree on every
  layer; no flag that is set in \<open>m\<close> is cleared in \<open>m'\<close>.\<close>

definition wasVisited :: "'a model \<Rightarrow> string \<Rightarrow> bool" where
  "wasVisited m k = (case map_of (modelLayersMap m) k of None \<Rightarrow> False | Some l \<Rightarrow> visited l)"

definition flagsAgree :: "'a model \<Rightarrow> bool" where
  "flagsAgree m = list_all (\<lambda>(k, l). hasResult l = visited l) (modelLayersMap m)"

definition flagsKept :: "'a model \<Rightarrow> 'a model \<Rightarrow> bool" where
  "flagsKept m m' =
     (\<forall>k. (computed m k \<longrightarrow> computed m' k) \<and> (wasVisited m k \<longrightarrow> wasVisited m' k))"

section \<open>Two states of the same model\<close>

text \<open>
  What \<^verbatim>\<open>predict\<close> never writes: the class, the graph, \<^verbatim>\<open>layerCallPauses\<close>, the
  name and the pipeline attribute of every layer, the names of the input tensors and
  every attribute of an input tensor but its data. Two layers are the same layer when
  they agree on the first two; two models are the same model when they agree on all
  of it.
\<close>

definition tensorSim :: "'a tensor \<Rightarrow> 'a tensor \<Rightarrow> bool" where
  "tensorSim t t' = (t'\<lparr>tdata := tdata t\<rparr> = t)"

definition inputsSim :: "'a model \<Rightarrow> 'a model \<Rightarrow> bool" where
  "inputsSim m m' =
     (keys (inputTensors m') = keys (inputTensors m)
      \<and> (\<forall>k. rel_option tensorSim (map_of (inputTensors m) k) (map_of (inputTensors m') k)))"

definition sameLayer :: "'a layer \<Rightarrow> 'a layer \<Rightarrow> bool" where
  "sameLayer l l' = (lname l' = lname l \<and> pipelineEnabled l' = pipelineEnabled l)"

definition sameModel :: "'a model \<Rightarrow> 'a model \<Rightarrow> bool" where
  "sameModel m m' =
     (modelClass m' = modelClass m \<and> modelDAG m' = modelDAG m
      \<and> layerCallPauses m' = layerCallPauses m
      \<and> (\<forall>k. rel_option sameLayer (map_of (modelLayersMap m) k) (map_of (modelLayersMap m') k))
      \<and> inputsSim m m')"

text \<open>
  Two states of the same model in which a call of \<^verbatim>\<open>predict\<close> has come equally
  far: the flags of every layer agree, and so does the result of every layer that
  has one in this call. The results left by earlier calls, on layers whose
  \<^verbatim>\<open>hasResult\<close> is false, may differ.
\<close>

definition layerSim :: "'a layer \<Rightarrow> 'a layer \<Rightarrow> bool" where
  "layerSim l l' =
     (lname l' = lname l \<and> pipelineEnabled l' = pipelineEnabled l \<and> hasResult l' = hasResult l
      \<and> visited l' = visited l \<and> (hasResult l \<longrightarrow> lresult l' = lresult l))"

definition modelSim :: "'a model \<Rightarrow> 'a model \<Rightarrow> bool" where
  "modelSim m m' =
     (modelClass m' = modelClass m \<and> modelDAG m' = modelDAG m
      \<and> layerCallPauses m' = layerCallPauses m
      \<and> (\<forall>k. rel_option layerSim (map_of (modelLayersMap m) k) (map_of (modelLayersMap m') k)))"

definition schedSim :: "'a sched \<Rightarrow> 'a sched \<Rightarrow> bool" where
  "schedSim s s' = (frontier s' = frontier s \<and> rejected s' = rejected s \<and> modelSim (mdl s) (mdl s'))"

section \<open>Example models\<close>

text \<open>Layers that add one to every entry of their input, or concatenate the inputs
  of a merge; a graph with one input feeding two layers whose outputs are merged.\<close>

definition exampleImpl :: "nat layers_impl" where
  "exampleImpl =
     \<lparr>layerCall = (\<lambda>name arg. case arg of
          Single x \<Rightarrow> Some (x\<lparr>tdata := map Suc (tdata x)\<rparr>)
        | Multi xs \<Rightarrow> Some (newTensor (concat (map tdata xs)) [])),
      transferFromPipeline = (\<lambda>name x. x\<lparr>fromPipeline := False\<rparr>)\<rparr>"


definition exampleLayer :: "string \<Rightarrow> nat layer" where
  "exampleLayer name =
     \<lparr>lname = name, pipelineEnabled = False, hasResult = False, visited = False, lresult = None\<rparr>"

definition exampleNode :: "string \<Rightarrow> string \<Rightarrow> string list \<Rightarrow> string list \<Rightarrow> dag_node" where
  "exampleNode cls name inb outb = \<lparr>layerClass = cls, nname = name, inbound = inb, outbound = outb\<rparr>"

definition diamondModel :: "nat model" where
  "diamondModel =
     \<lparr>modelClass = ''Model'',
      modelLayersMap = [(''in'', exampleLayer ''in''), (''a'', exampleLayer ''a''),
        (''b'', exampleLayer ''b''), (''m'', exampleLayer ''m'')],
      modelDAG = [(''in'', exampleNode ''InputLayer'' ''in'' [] [''a'', ''b'']),
        (''a'', exampleNode ''Dense'' ''a'' [''in''] [''m'']),
        (''b'', exampleNode ''Dense'' ''b'' [''in''] [''m'']),
        (''m'', exampleNode ''Merge'' ''m'' [''a'', ''b''] [])],
      inputTensors = [(''in'', newTensor [] [2])],
      layersWithResults = [], isRunning = False, layerCallPauses = False,
      layerWeights = [], tensorsCreated = 0, callLog = []\<rparr>"

definition diamondInput :: "(string \<times> nat jsval) list" where
  "diamondInput = [(''in'', Float32Array [1, 2])]"

text \<open>Inputs that \<^verbatim>\<open>predict\<close> refuses: a wrong name, and a value that is not a
  \<^verbatim>\<open>Float32Array\<close>.\<close>

definition wrongNameInput :: "(string \<times> nat jsval) list" where
  "wrongNameInput = [(''x'', Float32Array [1, 2])]"

definition wrongValueInput :: "(string \<times> nat jsval) list" where
  "wrongValueInput = [(''in'', OtherValue)]"

text \<open>The graph of a \<^verbatim>\<open>Sequential\<close> model of two layers.\<close>

definition chainModel :: "nat model" where
  "chainModel =
     \<lparr>modelClass = ''Sequential'',
      modelLayersMap = [(''input'', exampleLayer ''input''), (''d1'', exampleLayer ''d1''),
        (''d2'', exampleLayer ''d2'')],
      modelDAG = [(''input'', exampleNode ''InputLayer'' ''input'' [] [''d1'']),
        (''d1'', exampleNode ''Dense'' ''d1'' [''input''] [''d2'']),
        (''d2'', exampleNode ''Dense'' ''d2'' [''d1''] [])],
      inputTensors = [(''input'', newTensor [] [2])],
      layersWithResults = [], isRunning = False, layerCallPauses = False,
      layerWeights = [], tensorsCreated = 0, callLog = []\<rparr>"

definition chainInput :: "(string \<times> nat jsval) list" where
  "chainInput = [(''input'', Float32Array [1, 2])]"

text \<open>Metadata with two entries that match the weight \<open>dense_1_W\<close> of the layer
  \<open>dense_1\<close>; requests of which the first has failed; a runtime that refuses every
  source given to it (the weight names of the examples are plain, and none is given to
  it); a layers module, and the
  configuration and metadata of a sequential model of two layers, and of one with no
  layer.\<close>

definition twoMatches :: "weight_meta list" where
  "twoMatches =
     [\<lparr>layer_name = ''dense_1'', weight_name = ''dense_1_W'', w_offset = 0, w_length = 2, w_shape = [2]\<rparr>,
      \<lparr>layer_name = ''dense_1'', weight_name = ''dense_1_W_2'', w_offset = 8, w_length = 2, w_shape = [2]\<rparr>]"

definition modelFetchFails :: "(string \<times> request) list" where
  "modelFetchFails = [(''model'', Failed), (''weights'', InFlight), (''metadata'', InFlight)]"

definition exampleRegExp :: regexp where
  "exampleRegExp source = None"

definition exampleModule :: layers_module where
  "exampleModule =
     \<lparr>implemented = (\<lambda>cls. cls \<in> set [''InputLayer'', ''Dense'', ''Merge'']),
      params = (\<lambda>ld. if class_name ld = ''Dense'' then [''W'', ''b''] else []),
      forwardParams = (\<lambda>ld. []), backwardParams = (\<lambda>ld. []), innerParams = (\<lambda>ld. []),
      pipelineOf = (\<lambda>ld. False)\<rparr>"

definition denseDef :: "string \<Rightarrow> nat option list option \<Rightarrow> layer_def" where
  "denseDef name shape =
     \<lparr>class_name = ''Dense'', config_name = name, batch_input_shape = shape, wrapped = None,
      inbound_nodes = []\<rparr>"

definition chainJson :: model_json where
  "chainJson =
     \<lparr>mclass = ''Sequential'',
      mlayers = [denseDef ''d1'' (Some [None, Some 2]), denseDef ''d2'' None]\<rparr>"

definition chainMetadata :: "weight_meta list" where
  "chainMetadata =
     [\<lparr>layer_name = ''d1'', weight_name = ''d1_W'', w_offset = 0, w_length = 4, w_shape = [2, 2]\<rparr>,
      \<lparr>layer_name = ''d1'', weight_name = ''d1_b'', w_offset = 16, w_length = 2, w_shape = [2]\<rparr>,
      \<lparr>layer_name = ''d2'', weight_name = ''d2_W'', w_offset = 24, w_length = 2, w_shape = [2, 1]\<rparr>,
      \<lparr>layer_name = ''d2'', weight_name = ''d2_b'', w_offset = 32, w_length = 1, w_shape = [1]\<rparr>]"

definition emptyJson :: model_json where
  "emptyJson = \<lparr>mclass = ''Sequential'', mlayers = []\<rparr>"

section \<open>What a layer call and a branch change\<close>

lemma invokeCall_model:
  "invokeCall impl l arg m = (r, m') \<Longrightarrow> m' = m\<lparr>callLog := callLog m @ [lname l]\<rparr>"
  by (auto simp: invokeCall_def)

lemma regularInput_model:
  "regularInput impl cur inb r c m = (x, m') \<Longrightarrow> m' = m\<lparr>tensorsCreated := tensorsCreated m'\<rparr>"
  by (auto simp: regularInput_def split: if_splits)

lemma hostInputs_model:
  "hostInputs impl c ls m = (r, m') \<Longrightarrow> m' = m\<lparr>tensorsCreated := tensorsCreated m'\<rparr>"
proof (induction ls arbitrary: m r m')
  case Nil
  then show ?case by auto
next
  case (Cons l ls)
  show ?case
  proof (cases "lresult l")
    case None
    with Cons.prems show ?thesis by auto
  next
    case (Some x)
    obtain y m1 where ym: "(if fromPipeline x then (transferFromPipeline impl (lname l) x, m)
                 else if c then
                   (newTensor (tdata x) (tshape x), m\<lparr>tensorsCreated := Suc (tensorsCreated m)\<rparr>)
                 else (x, m)) = (y, m1)" by (cases "fromPipeline x"; cases c; simp)
    then have m1: "m1 = m\<lparr>tensorsCreated := tensorsCreated m1\<rparr>" by (auto split: if_splits)
    obtain r2 m2 where rec: "hostInputs impl c ls m1 = (r2, m2)" by (cases "hostInputs impl c ls m1")
    from Cons.IH[OF rec] have "m2 = m1\<lparr>tensorsCreated := tensorsCreated m2\<rparr>" .
    then obtain b where "m2 = m1\<lparr>tensorsCreated := b\<rparr>" by blast
    moreover from m1 obtain a where "m1 = m\<lparr>tensorsCreated := a\<rparr>" by blast
    ultimately have "m2 = m\<lparr>tensorsCreated := b\<rparr>" by simp
    then have m2: "m2 = m\<lparr>tensorsCreated := tensorsCreated m2\<rparr>" by simp
    from Cons.prems Some ym rec have "m' = m2" by (auto split: sum.splits)
    with m2 show ?thesis by simp
  qed
qed

lemma pipelineInputs_model:
  "pipelineInputs xs m = (r, m') \<Longrightarrow> m' = m\<lparr>tensorsCreated := tensorsCreated m'\<rparr>"
proof (induction xs m arbitrary: r m' rule: pipelineInputs.induct)
  case (1 m)
  then show ?case by auto
next
  case (2 xs m)
  then show ?case by auto
next
  case (3 x xs m)
  obtain r2 m2 where rec: "pipelineInputs xs (m\<lparr>tensorsCreated := Suc (tensorsCreated m)\<rparr>) = (r2, m2)"
    by (cases "pipelineInputs xs (m\<lparr>tensorsCreated := Suc (tensorsCreated m)\<rparr>)")
  from 3(1)[OF rec] have "m2 = m\<lparr>tensorsCreated := tensorsCreated m2\<rparr>" by simp
  moreover from 3(2) rec have "m' = m2" by (auto split: sum.splits)
  ultimately show ?case by simp
qed

lemma mergeInputs_model:
  "mergeInputs impl cur ls c m = (r, m') \<Longrightarrow> m' = m\<lparr>tensorsCreated := tensorsCreated m'\<rparr>"
  unfolding mergeInputs_def
  by (auto split: option.splits if_splits dest: hostInputs_model pipelineInputs_model)

lemma regularLayerCall_model:
  "regularLayerCall impl cur inb c m = (r, m')
    \<Longrightarrow> m' = m\<lparr>tensorsCreated := tensorsCreated m', callLog := callLog m'\<rparr>"
  unfolding regularLayerCall_def
  by (auto split: option.splits prod.splits dest!: regularInput_model invokeCall_model)

lemma mergeLayerCall_model:
  "mergeLayerCall impl cur ls c m = (r, m')
    \<Longrightarrow> m' = m\<lparr>tensorsCreated := tensorsCreated m', callLog := callLog m'\<rparr>"
  unfolding mergeLayerCall_def
  by (auto split: sum.splits prod.splits dest!: mergeInputs_model invokeCall_model)

lemma layerCalls_model:
  assumes "(if mg then mergeLayerCall impl cur ls c m else regularLayerCall impl cur inb c m) = (r, m')"
  shows "m' = m\<lparr>tensorsCreated := tensorsCreated m', callLog := callLog m'\<rparr>"
  using assms by (auto split: if_splits dest: mergeLayerCall_model regularLayerCall_model)

lemma traverseNode_model:
  assumes "traverseNode impl m node = (v, m')"
  shows "(m' = m\<lparr>tensorsCreated := tensorsCreated m', callLog := callLog m'\<rparr> \<and> (\<forall>out. v \<noteq> Computed out))
       \<or> (\<exists>nd cur res m1. map_of (modelDAG m) node = Some nd \<and> map_of (modelLayersMap m) node = Some cur
             \<and> \<not> visited cur \<and> layerClass nd \<noteq> ''InputLayer''
             \<and> v = Computed (outbound nd)
             \<and> m1 = m\<lparr>tensorsCreated := tensorsCreated m1, callLog := callLog m1\<rparr>
             \<and> m' = storeResult node cur res m1)"
proof (cases "map_of (modelDAG m) node")
  case None
  with assms show ?thesis by (auto simp: traverseNode_def)
next
  case (Some nd)
  note nd = this
  show ?thesis
  proof (cases "layerClass nd = ''InputLayer''")
    case True
    with assms nd show ?thesis by (auto simp: traverseNode_def)
  next
    case notInput: False
    show ?thesis
    proof (cases "map_of (modelLayersMap m) node")
      case None
      with assms nd notInput show ?thesis by (auto simp: traverseNode_def)
    next
      case (Some cur)
      note cur = this
      show ?thesis
      proof (cases "visited cur")
        case True
        with assms nd notInput cur show ?thesis by (auto simp: traverseNode_def)
      next
        case notVisited: False
        show ?thesis
        proof (cases "lookupAll (modelLayersMap m) (inbound nd)")
          case None
          with assms nd notInput cur notVisited show ?thesis by (auto simp: traverseNode_def)
        next
          case (Some ils)
          note ils = this
          show ?thesis
          proof (cases "list_all hasResult ils")
            case False
            with assms nd notInput cur notVisited ils show ?thesis by (auto simp: traverseNode_def)
          next
            case ready: True
            show ?thesis
            proof (cases "lookupAll (modelDAG m) (inbound nd)")
              case None
              with assms nd notInput cur notVisited ils ready show ?thesis
                by (auto simp: traverseNode_def)
            next
              case (Some ins)
              obtain r m1 where call:
                "(if layerClass nd = ''Merge''
                  then mergeLayerCall impl cur ils (copyBeforeCall ins) m
                  else regularLayerCall impl cur (case ils of [] \<Rightarrow> None | l # _ \<Rightarrow> Some l)
                         (copyBeforeCall ins) m) = (r, m1)"
                by (metis surj_pair)
              have m1: "m1 = m\<lparr>tensorsCreated := tensorsCreated m1, callLog := callLog m1\<rparr>"
                by (rule layerCalls_model[OF call])
              from assms nd notInput cur notVisited ils ready Some call
              have res: "(v, m') = (case r of Inl e \<Rightarrow> (Throw, m1)
                           | Inr res \<Rightarrow> (Computed (outbound nd), storeResult node cur res m1))"
                by (simp add: traverseNode_def)
              show ?thesis
              proof (cases r)
                case (Inl e)
                with res m1 show ?thesis by auto
              next
                case (Inr res')
                with res have "v = Computed (outbound nd)" "m' = storeResult node cur res' m1" by auto
                with nd cur notVisited notInput m1 show ?thesis by blast
              qed
            qed
          qed
        qed
      qed
    qed
  qed
qed

lemma lookupAll_Some:
  "(\<forall>n \<in> set names. map_of table n \<noteq> None)
    \<Longrightarrow> lookupAll table names = Some (map (\<lambda>n. the (map_of table n)) names)"
  unfolding lookupAll_def by (induction names) auto

lemma hostInputs_succeeds:
  "\<forall>l \<in> set ls. lresult l \<noteq> None \<Longrightarrow> \<exists>ys. fst (hostInputs impl c ls m) = Inr ys"
proof (induction ls arbitrary: m)
  case Nil
  then show ?case by simp
next
  case (Cons l ls)
  then obtain x where x: "lresult l = Some x" by auto
  obtain y m1 where ym: "(if fromPipeline x then (transferFromPipeline impl (lname l) x, m)
                 else if c then
                   (newTensor (tdata x) (tshape x), m\<lparr>tensorsCreated := Suc (tensorsCreated m)\<rparr>)
                 else (x, m)) = (y, m1)" by (cases "fromPipeline x"; cases c; simp)
  from Cons obtain ys where "fst (hostInputs impl c ls m1) = Inr ys" by fastforce
  then obtain m2 where "hostInputs impl c ls m1 = (Inr ys, m2)" by (cases "hostInputs impl c ls m1") auto
  with x ym show ?case by simp
qed

lemma pipelineInputs_succeeds:
  "\<forall>x \<in> set xs. x \<noteq> None \<Longrightarrow> \<exists>ys. fst (pipelineInputs xs m) = Inr ys"
proof (induction xs m rule: pipelineInputs.induct)
  case (1 m)
  then show ?case by simp
next
  case (2 xs m)
  then show ?case by simp
next
  case (3 x xs m)
  then obtain ys where "fst (pipelineInputs xs (m\<lparr>tensorsCreated := Suc (tensorsCreated m)\<rparr>)) = Inr ys"
    by fastforce
  then obtain m2 where "pipelineInputs xs (m\<lparr>tensorsCreated := Suc (tensorsCreated m)\<rparr>) = (Inr ys, m2)"
    by (cases "pipelineInputs xs (m\<lparr>tensorsCreated := Suc (tensorsCreated m)\<rparr>)") auto
  then show ?case by simp
qed

lemma canRunInPipeline_Some:
  "\<forall>x \<in> set xs. x \<noteq> None \<Longrightarrow> canRunInPipeline xs \<noteq> None"
  by (induction xs rule: canRunInPipeline.induct) auto

lemma those_Some: "\<forall>x \<in> set xs. x \<noteq> None \<Longrightarrow> those xs \<noteq> None"
  by (induction xs) auto

lemma mergeInputs_succeeds:
  assumes "\<forall>l \<in> set ls. lresult l \<noteq> None"
  shows "\<exists>ys. fst (mergeInputs impl cur ls c m) = Inr ys"
proof -
  from assms have all: "\<forall>x \<in> set (map lresult ls). x \<noteq> None" by auto
  from canRunInPipeline_Some[OF all] obtain can where can: "canRunInPipeline (map lresult ls) = Some can"
    by auto
  from those_Some[OF all] obtain xs where xs: "those (map lresult ls) = Some xs" by auto
  from hostInputs_succeeds[OF assms] pipelineInputs_succeeds[OF all] can xs show ?thesis
    by (auto simp: mergeInputs_def)
qed

lemma invokeCall_succeeds:
  "callsSucceed impl \<Longrightarrow> \<exists>res. invokeCall impl l arg m = (Inr res, m\<lparr>callLog := callLog m @ [lname l]\<rparr>)"
  by (auto simp: invokeCall_def callsSucceed_def split: option.splits)

lemma frame_callLog:
  "m1 = m\<lparr>tensorsCreated := n\<rparr>
    \<Longrightarrow> m1\<lparr>callLog := callLog m1 @ xs\<rparr> = m\<lparr>tensorsCreated := n, callLog := callLog m @ xs\<rparr>"
  by simp

lemma mergeLayerCall_succeeds:
  assumes "\<forall>l \<in> set ls. lresult l \<noteq> None" "callsSucceed impl"
  shows "\<exists>res n. mergeLayerCall impl cur ls c m
           = (Inr res, m\<lparr>tensorsCreated := n, callLog := callLog m @ [lname cur]\<rparr>)"
proof -
  from mergeInputs_succeeds[OF assms(1)] obtain ys m1 where
    mi: "mergeInputs impl cur ls c m = (Inr ys, m1)"
    by (metis fst_conv surj_pair)
  from mergeInputs_model[OF mi] have m1: "m1 = m\<lparr>tensorsCreated := tensorsCreated m1\<rparr>" .
  from invokeCall_succeeds[OF assms(2)] obtain res where
    "invokeCall impl cur (Multi ys) m1 = (Inr res, m1\<lparr>callLog := callLog m1 @ [lname cur]\<rparr>)" by blast
  with mi have "mergeLayerCall impl cur ls c m = (Inr res, m1\<lparr>callLog := callLog m1 @ [lname cur]\<rparr>)"
    by (simp add: mergeLayerCall_def)
  moreover have "m1\<lparr>callLog := callLog m1 @ [lname cur]\<rparr>
      = m\<lparr>tensorsCreated := tensorsCreated m1, callLog := callLog m @ [lname cur]\<rparr>"
    by (rule frame_callLog[OF m1])
  ultimately show ?thesis by metis
qed

lemma regularLayerCall_succeeds:
  assumes "lresult inb = Some r" "callsSucceed impl"
  shows "\<exists>res n. regularLayerCall impl cur (Some inb) c m
           = (Inr res, m\<lparr>tensorsCreated := n, callLog := callLog m @ [lname cur]\<rparr>)"
proof -
  obtain x m1 where ri: "regularInput impl cur inb r c m = (x, m1)" by (metis surj_pair)
  from regularInput_model[OF ri] have m1: "m1 = m\<lparr>tensorsCreated := tensorsCreated m1\<rparr>" .
  from invokeCall_succeeds[OF assms(2)] obtain res where
    "invokeCall impl cur (Single x) m1 = (Inr res, m1\<lparr>callLog := callLog m1 @ [lname cur]\<rparr>)" by blast
  with ri assms(1) have "regularLayerCall impl cur (Some inb) c m
      = (Inr res, m1\<lparr>callLog := callLog m1 @ [lname cur]\<rparr>)"
    by (simp add: regularLayerCall_def)
  moreover have "m1\<lparr>callLog := callLog m1 @ [lname cur]\<rparr>
      = m\<lparr>tensorsCreated := tensorsCreated m1, callLog := callLog m @ [lname cur]\<rparr>"
    by (rule frame_callLog[OF m1])
  ultimately show ?thesis by metis
qed

lemma traverseNode_input:
  "map_of (modelDAG m) node = Some nd \<Longrightarrow> layerClass nd = ''InputLayer''
    \<Longrightarrow> traverseNode impl m node = (Descend (outbound nd), m)"
  by (simp add: traverseNode_def)

lemma traverseNode_visited:
  "map_of (modelDAG m) node = Some nd \<Longrightarrow> layerClass nd \<noteq> ''InputLayer''
    \<Longrightarrow> map_of (modelLayersMap m) node = Some cur \<Longrightarrow> visited cur
    \<Longrightarrow> traverseNode impl m node = (Skip, m)"
  by (simp add: traverseNode_def)

lemma list_all_hasResult_computed:
  assumes "\<forall>p \<in> set ps. map_of (modelLayersMap m) p \<noteq> None"
  shows "list_all hasResult (map (\<lambda>n. the (map_of (modelLayersMap m) n)) ps)
           = (\<forall>p \<in> set ps. computed m p)"
  using assms by (induction ps) (auto simp: computed_def)

lemma traverseNode_notReady:
  assumes "map_of (modelDAG m) node = Some nd" "layerClass nd \<noteq> ''InputLayer''"
    "map_of (modelLayersMap m) node = Some cur" "\<not> visited cur"
    "\<forall>p \<in> set (inbound nd). map_of (modelLayersMap m) p \<noteq> None"
    "\<exists>p \<in> set (inbound nd). \<not> computed m p"
  shows "traverseNode impl m node = (Skip, m)"
proof -
  note la = lookupAll_Some[OF assms(5)]
  from list_all_hasResult_computed[OF assms(5)] assms(6)
  have "\<not> list_all hasResult (map (\<lambda>n. the (map_of (modelLayersMap m) n)) (inbound nd))" by blast
  with assms(1-4) la show ?thesis by (simp add: traverseNode_def)
qed

lemma traverseNode_compute:
  assumes nd: "map_of (modelDAG m) node = Some nd" and ni: "layerClass nd \<noteq> ''InputLayer''"
    and cur: "map_of (modelLayersMap m) node = Some cur" and nv: "\<not> visited cur"
    and ils: "\<forall>p \<in> set (inbound nd). \<exists>l. map_of (modelLayersMap m) p = Some l \<and> hasResult l \<and> lresult l \<noteq> None"
    and ins: "\<forall>p \<in> set (inbound nd). map_of (modelDAG m) p \<noteq> None"
    and ne: "inbound nd \<noteq> []"
    and ok: "callsSucceed impl"
  shows "\<exists>res n. traverseNode impl m node
     = (Computed (outbound nd),
        storeResult node cur res (m\<lparr>tensorsCreated := n, callLog := callLog m @ [lname cur]\<rparr>))"
proof -
  let ?ils = "map (\<lambda>n. the (map_of (modelLayersMap m) n)) (inbound nd)"
  let ?ins = "map (\<lambda>n. the (map_of (modelDAG m) n)) (inbound nd)"
  from ils have ex: "\<forall>p \<in> set (inbound nd). map_of (modelLayersMap m) p \<noteq> None" by auto
  note la = lookupAll_Some[OF ex]
  note lb = lookupAll_Some[OF ins]
  from ils have comp: "\<forall>p \<in> set (inbound nd). computed m p" by (auto simp: computed_def)
  with list_all_hasResult_computed[OF ex] have ready: "list_all hasResult ?ils" by blast
  from ils have results: "\<forall>l \<in> set ?ils. lresult l \<noteq> None" by auto
  obtain p ps where pps: "inbound nd = p # ps" using ne by (cases "inbound nd") auto
  then obtain r0 where r0: "lresult (the (map_of (modelLayersMap m) p)) = Some r0"
    using ils by fastforce
  have "\<exists>res n. (if layerClass nd = ''Merge''
                  then mergeLayerCall impl cur ?ils (copyBeforeCall ?ins) m
                  else regularLayerCall impl cur (case ?ils of [] \<Rightarrow> None | l # _ \<Rightarrow> Some l)
                         (copyBeforeCall ?ins) m)
         = (Inr res, m\<lparr>tensorsCreated := n, callLog := callLog m @ [lname cur]\<rparr>)"
  proof (cases "layerClass nd = ''Merge''")
    case True
    with mergeLayerCall_succeeds[OF results ok] show ?thesis by simp
  next
    case False
    with regularLayerCall_succeeds[OF r0 ok] pps show ?thesis by simp
  qed
  then obtain res n where call: "(if layerClass nd = ''Merge''
                  then mergeLayerCall impl cur ?ils (copyBeforeCall ?ins) m
                  else regularLayerCall impl cur (case ?ils of [] \<Rightarrow> None | l # _ \<Rightarrow> Some l)
                         (copyBeforeCall ?ins) m)
         = (Inr res, m\<lparr>tensorsCreated := n, callLog := callLog m @ [lname cur]\<rparr>)" by blast
  from nd ni cur nv la lb ready call
  have "traverseNode impl m node = (Computed (outbound nd),
        storeResult node cur res (m\<lparr>tensorsCreated := n, callLog := callLog m @ [lname cur]\<rparr>))"
    by (simp add: traverseNode_def)
  then show ?thesis by blast
qed

section \<open>Well-formed graphs: the traversal ends and computes every node\<close>

lemma validDAG_node:
  assumes "validDAG m" "map_of (modelDAG m) k = Some nd"
  shows "nname nd = k"
    and "\<exists>l. map_of (modelLayersMap m) k = Some l \<and> lname l = k"
    and "(layerClass nd = ''InputLayer'') = (k \<in> set (keys (inputTensors m)))"
    and "(layerClass nd = ''InputLayer'') = (inbound nd = [])"
    and "\<forall>p \<in> set (inbound nd). \<exists>pn. map_of (modelDAG m) p = Some pn \<and> k \<in> set (outbound pn)"
    and "\<forall>c \<in> set (outbound nd). \<exists>cn. map_of (modelDAG m) c = Some cn \<and> k \<in> set (inbound cn)"
proof -
  from assms(2) have "(k, nd) \<in> set (modelDAG m)" by (rule map_of_SomeD)
  with assms(1) have ok: "nodeOk m (k, nd)" by (auto simp: validDAG_def list_all_iff)
  have c: "nname nd = k \<and>
     (case map_of (modelLayersMap m) k of None \<Rightarrow> False | Some l \<Rightarrow> lname l = k) \<and>
     ((layerClass nd = ''InputLayer'') = (k \<in> set (keys (inputTensors m)))) \<and>
     ((layerClass nd = ''InputLayer'') = (inbound nd = [])) \<and>
     list_all (\<lambda>p. case map_of (modelDAG m) p of None \<Rightarrow> False
                    | Some pn \<Rightarrow> k \<in> set (outbound pn)) (inbound nd) \<and>
     list_all (\<lambda>c. case map_of (modelDAG m) c of None \<Rightarrow> False
                    | Some cn \<Rightarrow> k \<in> set (inbound cn)) (outbound nd)"
    by (rule ok[unfolded nodeOk_def split_conv])
  from c show "nname nd = k" by blast
  from c have "case map_of (modelLayersMap m) k of None \<Rightarrow> False | Some l \<Rightarrow> lname l = k" by blast
  then show "\<exists>l. map_of (modelLayersMap m) k = Some l \<and> lname l = k"
    by (cases "map_of (modelLayersMap m) k") auto
  from c show "(layerClass nd = ''InputLayer'') = (k \<in> set (keys (inputTensors m)))" by blast
  from c show "(layerClass nd = ''InputLayer'') = (inbound nd = [])" by blast
  from c have "list_all (\<lambda>p. case map_of (modelDAG m) p of None \<Rightarrow> False
                    | Some pn \<Rightarrow> k \<in> set (outbound pn)) (inbound nd)" by blast
  then show "\<forall>p \<in> set (inbound nd). \<exists>pn. map_of (modelDAG m) p = Some pn \<and> k \<in> set (outbound pn)"
    by (auto simp: list_all_iff split: option.splits)
  from c have "list_all (\<lambda>c. case map_of (modelDAG m) c of None \<Rightarrow> False
                    | Some cn \<Rightarrow> k \<in> set (inbound cn)) (outbound nd)" by blast
  then show "\<forall>c \<in> set (outbound nd). \<exists>cn. map_of (modelDAG m) c = Some cn \<and> k \<in> set (inbound cn)"
    by (auto simp: list_all_iff split: option.splits)
qed

lemma outbound_not_input:
  assumes "validDAG m" "map_of (modelDAG m) k = Some nd" "c \<in> set (outbound nd)"
  shows "\<exists>cn. map_of (modelDAG m) c = Some cn \<and> layerClass cn \<noteq> ''InputLayer'' \<and> k \<in> set (inbound cn)"
proof -
  from validDAG_node(6)[OF assms(1,2)] assms(3)
  obtain cn where cn: "map_of (modelDAG m) c = Some cn" "k \<in> set (inbound cn)" by blast
  from validDAG_node(4)[OF assms(1) cn(1)] cn(2) have "layerClass cn \<noteq> ''InputLayer''" by auto
  with cn show ?thesis by blast
qed

lemma keys_map_of: "k \<in> set (keys al) \<longleftrightarrow> map_of al k \<noteq> None"
  by (simp add: keys_def map_of_eq_None_iff)

lemma branchWeight_outbound:
  assumes "validDAG m" "map_of (modelDAG m) k = Some nd"
  shows "sum_list (map (branchWeight m) (outbound nd)) = length (outbound nd)"
proof -
  have "\<forall>c \<in> set (outbound nd). branchWeight m c = 1"
    using outbound_not_input[OF assms] by (fastforce simp: branchWeight_def)
  then have "map (branchWeight m) (outbound nd) = replicate (length (outbound nd)) 1"
    by (simp add: map_replicate_const[symmetric] cong: map_cong)
  then show ?thesis by (simp add: sum_list_replicate)
qed

lemma pendingEdges_aux:
  assumes "distinct (map fst xs)" "\<not> inp nd" "\<not> c h"
    "\<forall>k. c' k = (k = h \<or> c k)"
    "\<forall>nd'. (h, nd') \<in> set xs \<longrightarrow> nd' = nd"
  shows "sum_list (map (\<lambda>(k, nd). if inp nd \<or> c' k then 0 else length (outbound nd)) xs)
         + (if h \<in> fst ` set xs then length (outbound nd) else 0)
       = sum_list (map (\<lambda>(k, nd). if inp nd \<or> c k then 0 else length (outbound nd)) xs)"
  using assms
proof (induction xs)
  case Nil
  then show ?case by simp
next
  case (Cons x xs)
  obtain k0 n0 where x: "x = (k0, n0)" by (cases x)
  from Cons.prems x have IH: "sum_list (map (\<lambda>(k, nd). if inp nd \<or> c' k then 0 else length (outbound nd)) xs)
         + (if h \<in> fst ` set xs then length (outbound nd) else 0)
       = sum_list (map (\<lambda>(k, nd). if inp nd \<or> c k then 0 else length (outbound nd)) xs)"
    by (intro Cons.IH) auto
  show ?case
  proof (cases "k0 = h")
    case True
    with Cons.prems x have "n0 = nd" "h \<notin> fst ` set xs" by auto
    with IH True x Cons.prems(2,3,4) show ?thesis by simp
  next
    case False
    with IH x Cons.prems(4) show ?thesis by simp
  qed
qed

lemma pendingEdges_compute:
  assumes "distinct (keys (modelDAG m))" "map_of (modelDAG m) h = Some nd"
    "layerClass nd \<noteq> ''InputLayer''" "\<not> computed m h"
    "modelDAG m' = modelDAG m" "\<forall>k. computed m' k = (k = h \<or> computed m k)"
  shows "pendingEdges m' + length (outbound nd) = pendingEdges m"
proof -
  from assms(1) have d: "distinct (map fst (modelDAG m))" by (simp add: keys_def)
  have u: "\<forall>nd'. (h, nd') \<in> set (modelDAG m) \<longrightarrow> nd' = nd"
    using d assms(2) by (metis map_of_is_SomeI option.inject)
  have hin: "h \<in> fst ` set (modelDAG m)"
    using assms(2) by (metis map_of_SomeD fst_conv image_eqI)
  from pendingEdges_aux[where inp = "\<lambda>nd. layerClass nd = ''InputLayer''", OF d assms(3) assms(4) assms(6) u] hin
  show ?thesis by (simp add: pendingEdges_def assms(5))
qed

lemma pendingEdges_same:
  "modelDAG m' = modelDAG m \<Longrightarrow> \<forall>k. computed m' k = computed m k \<Longrightarrow> pendingEdges m' = pendingEdges m"
  by (simp add: pendingEdges_def)

lemma branchWeight_same:
  "modelDAG m' = modelDAG m \<Longrightarrow> branchWeight m' = branchWeight m"
  by (auto simp: branchWeight_def fun_eq_iff)

lemma inbound_outbound:
  assumes v: "validDAG m0" and h: "map_of (modelDAG m0) h = Some nd"
    and k: "map_of (modelDAG m0) k = Some kn" and hk: "h \<in> set (inbound kn)"
  shows "k \<in> set (outbound nd)"
proof -
  from validDAG_node(5)[OF v k] hk obtain pn where
    "map_of (modelDAG m0) h = Some pn" "k \<in> set (outbound pn)" by blast
  with h show ?thesis by simp
qed

lemma coverage_input:
  assumes v: "validDAG m0" and h: "map_of (modelDAG m0) h = Some nd"
    and i: "layerClass nd = ''InputLayer''" and c: "coverage m0 C (insert h R)"
  shows "coverage m0 C (set (outbound nd) \<union> R)"
  unfolding coverage_def
proof (intro allI impI)
  fix k kn
  assume a: "map_of (modelDAG m0) k = Some kn \<and> layerClass kn \<noteq> ''InputLayer'' \<and> \<not> C k"
  then have k: "map_of (modelDAG m0) k = Some kn" by simp
  from a c have old: "(\<exists>p \<in> set (inbound kn). \<not> C p) \<or> k \<in> insert h R
        \<or> (\<exists>p \<in> set (inbound kn). p \<in> insert h R \<and> isInputNode m0 p)"
    unfolding coverage_def by blast
  from a h i have kh: "k \<noteq> h" by auto
  note io = inbound_outbound[OF v h k]
  from old kh io show "(\<exists>p \<in> set (inbound kn). \<not> C p) \<or> k \<in> set (outbound nd) \<union> R
        \<or> (\<exists>p \<in> set (inbound kn). p \<in> set (outbound nd) \<union> R \<and> isInputNode m0 p)"
    by blast
qed

lemma coverage_skip:
  assumes h: "map_of (modelDAG m0) h = Some nd" and i: "layerClass nd \<noteq> ''InputLayer''"
    and r: "C h \<or> (\<exists>p \<in> set (inbound nd). \<not> C p)" and c: "coverage m0 C (insert h R)"
  shows "coverage m0 C R"
  unfolding coverage_def
proof (intro allI impI)
  fix k kn
  assume a: "map_of (modelDAG m0) k = Some kn \<and> layerClass kn \<noteq> ''InputLayer'' \<and> \<not> C k"
  then have k: "map_of (modelDAG m0) k = Some kn" and nc: "\<not> C k" by simp_all
  from a c have old: "(\<exists>p \<in> set (inbound kn). \<not> C p) \<or> k \<in> insert h R
        \<or> (\<exists>p \<in> set (inbound kn). p \<in> insert h R \<and> isInputNode m0 p)"
    unfolding coverage_def by blast
  from h i have nh: "\<not> isInputNode m0 h" by (simp add: isInputNode_def)
  from old consider (a) "\<exists>p \<in> set (inbound kn). \<not> C p" | (b) "k = h" | (c) "k \<in> R"
    | (d) "\<exists>p \<in> set (inbound kn). p \<in> insert h R \<and> isInputNode m0 p" by blast
  then show "(\<exists>p \<in> set (inbound kn). \<not> C p) \<or> k \<in> R
        \<or> (\<exists>p \<in> set (inbound kn). p \<in> R \<and> isInputNode m0 p)"
  proof cases
    case a
    then show ?thesis by simp
  next
    case b
    with k h have "kn = nd" by simp
    with r nc b show ?thesis by simp
  next
    case c
    then show ?thesis by simp
  next
    case d
    then obtain p where p: "p \<in> set (inbound kn)" "p \<in> insert h R" "isInputNode m0 p" by blast
    with nh have "p \<in> R" by auto
    with p show ?thesis by blast
  qed
qed

lemma coverage_compute:
  assumes v: "validDAG m0" and h: "map_of (modelDAG m0) h = Some nd"
    and i: "layerClass nd \<noteq> ''InputLayer''" and c: "coverage m0 C (insert h R)"
  shows "coverage m0 (\<lambda>k. k = h \<or> C k) (set (outbound nd) \<union> R)"
  unfolding coverage_def
proof (intro allI impI)
  fix k kn
  assume a: "map_of (modelDAG m0) k = Some kn \<and> layerClass kn \<noteq> ''InputLayer'' \<and> \<not> (k = h \<or> C k)"
  then have k: "map_of (modelDAG m0) k = Some kn" and kh: "k \<noteq> h" and nc: "\<not> C k"
    and ni: "layerClass kn \<noteq> ''InputLayer''" by simp_all
  from k ni nc c have old: "(\<exists>p \<in> set (inbound kn). \<not> C p) \<or> k \<in> insert h R
        \<or> (\<exists>p \<in> set (inbound kn). p \<in> insert h R \<and> isInputNode m0 p)"
    unfolding coverage_def by blast
  from h i have nh: "\<not> isInputNode m0 h" by (simp add: isInputNode_def)
  note io = inbound_outbound[OF v h k]
  from old kh consider (a) "\<exists>p \<in> set (inbound kn). \<not> C p" | (c) "k \<in> R"
    | (d) "\<exists>p \<in> set (inbound kn). p \<in> insert h R \<and> isInputNode m0 p" by blast
  then show "(\<exists>p \<in> set (inbound kn). \<not> (p = h \<or> C p)) \<or> k \<in> set (outbound nd) \<union> R
        \<or> (\<exists>p \<in> set (inbound kn). p \<in> set (outbound nd) \<union> R \<and> isInputNode m0 p)"
  proof cases
    case a
    then obtain p where p: "p \<in> set (inbound kn)" "\<not> C p" by blast
    show ?thesis
    proof (cases "p = h")
      case True
      with p io have "k \<in> set (outbound nd)" by simp
      then show ?thesis by simp
    next
      case False
      with p show ?thesis by blast
    qed
  next
    case c
    then show ?thesis by simp
  next
    case d
    then obtain p where p: "p \<in> set (inbound kn)" "p \<in> insert h R" "isInputNode m0 p" by blast
    with nh have "p \<in> R" by auto
    with p show ?thesis by blast
  qed
qed

lemma storeResult_simps:
  "modelDAG (storeResult h cur res m) = modelDAG m"
  "modelClass (storeResult h cur res m) = modelClass m"
  "inputTensors (storeResult h cur res m) = inputTensors m"
  "isRunning (storeResult h cur res m) = isRunning m"
  "layerCallPauses (storeResult h cur res m) = layerCallPauses m"
  "callLog (storeResult h cur res m) = callLog m"
  "tensorsCreated (storeResult h cur res m) = tensorsCreated m"
  "map_of (modelLayersMap (storeResult h cur res m))
     = (map_of (modelLayersMap m))(h \<mapsto> cur\<lparr>lresult := Some res, hasResult := True, visited := True\<rparr>)"
  by (simp_all add: storeResult_def update_conv')

lemma computed_storeResult:
  "computed (storeResult h cur res m) k = (k = h \<or> computed m k)"
  by (simp add: computed_def storeResult_simps)

lemma layerOk_storeResult:
  "layerOk m k \<Longrightarrow> map_of (modelLayersMap m) h = Some cur
    \<Longrightarrow> layerOk (storeResult h cur res m) k"
  by (cases "k = h") (simp_all add: layerOk_def storeResult_simps)

lemma ghost_simps:
  "computed (m\<lparr>tensorsCreated := n, callLog := lg\<rparr>) = computed m"
  "layerOk (m\<lparr>tensorsCreated := n, callLog := lg\<rparr>) = layerOk m"
  by (auto simp: computed_def layerOk_def fun_eq_iff)

lemma schedInvD:
  assumes "schedInv m0 s"
  shows "modelDAG (mdl s) = modelDAG m0" "\<not> rejected s"
    "set (frontier s) \<subseteq> set (keys (modelDAG m0))"
    "\<And>k nd. map_of (modelDAG m0) k = Some nd \<Longrightarrow> layerOk (mdl s) k"
    "\<And>k nd. map_of (modelDAG m0) k = Some nd \<Longrightarrow> layerClass nd = ''InputLayer'' \<Longrightarrow> computed (mdl s) k"
    "coverage m0 (computed (mdl s)) (set (frontier s))"
    "\<exists>log. callLog (mdl s) = callLog m0 @ log \<and> distinct log
         \<and> set log = {k \<in> set (keys (modelDAG m0)). computed (mdl s) k}"
  using assms unfolding schedInv_def by blast+

lemma schedInvI:
  assumes "modelDAG (mdl s) = modelDAG m0" "\<not> rejected s"
    "set (frontier s) \<subseteq> set (keys (modelDAG m0))"
    "\<And>k nd. map_of (modelDAG m0) k = Some nd \<Longrightarrow> layerOk (mdl s) k"
    "\<And>k nd. map_of (modelDAG m0) k = Some nd \<Longrightarrow> layerClass nd = ''InputLayer'' \<Longrightarrow> computed (mdl s) k"
    "coverage m0 (computed (mdl s)) (set (frontier s))"
    "\<exists>log. callLog (mdl s) = callLog m0 @ log \<and> distinct log
         \<and> set log = {k \<in> set (keys (modelDAG m0)). computed (mdl s) k}"
  shows "schedInv m0 s"
  using assms unfolding schedInv_def by blast

lemma outbound_keys:
  assumes "validDAG m0" "map_of (modelDAG m0) h = Some nd"
  shows "set (outbound nd) \<subseteq> set (keys (modelDAG m0))"
proof
  fix c assume "c \<in> set (outbound nd)"
  with validDAG_node(6)[OF assms] obtain cn where "map_of (modelDAG m0) c = Some cn" by blast
  then show "c \<in> set (keys (modelDAG m0))" by (simp add: keys_map_of)
qed

lemma step_input:
  assumes fr: "frontier s = h # rest" and nd: "map_of (modelDAG (mdl s)) h = Some nd"
    and i: "layerClass nd = ''InputLayer''"
  shows "step impl s = s\<lparr>frontier := outbound nd @ rest\<rparr>"
  using fr traverseNode_input[OF nd i] by (simp add: step_def)

lemma step_skip:
  assumes fr: "frontier s = h # rest" and t: "traverseNode impl (mdl s) h = (Skip, mdl s)"
  shows "step impl s = s\<lparr>frontier := rest\<rparr>"
  using fr t by (simp add: step_def)

lemma preserved_input:
  assumes v: "validDAG m0" and inv: "schedInv m0 s" and fr: "frontier s = h # rest"
    and nd: "map_of (modelDAG m0) h = Some nd" and i: "layerClass nd = ''InputLayer''"
  shows "schedInv m0 (step impl s) \<and> remaining (step impl s) < remaining s"
proof -
  note I = schedInvD[OF inv]
  from nd I(1) have nd': "map_of (modelDAG (mdl s)) h = Some nd" by simp
  have st: "step impl s = s\<lparr>frontier := outbound nd @ rest\<rparr>" by (rule step_input[OF fr nd' i])
  have cov: "coverage m0 (computed (mdl s)) (set (outbound nd) \<union> set rest)"
    using coverage_input[OF v nd i, of "computed (mdl s)" "set rest"] I(6) fr by simp
  have "schedInv m0 (s\<lparr>frontier := outbound nd @ rest\<rparr>)"
  proof (rule schedInvI)
    show "set (frontier (s\<lparr>frontier := outbound nd @ rest\<rparr>)) \<subseteq> set (keys (modelDAG m0))"
      using outbound_keys[OF v nd] I(3) fr by auto
    show "coverage m0 (computed (mdl (s\<lparr>frontier := outbound nd @ rest\<rparr>)))
            (set (frontier (s\<lparr>frontier := outbound nd @ rest\<rparr>)))"
      using cov by simp
  qed (use I in simp_all)
  moreover have "remaining (s\<lparr>frontier := outbound nd @ rest\<rparr>) < remaining s"
  proof -
    have bw: "sum_list (map (branchWeight (mdl s)) (outbound nd)) = length (outbound nd)"
      using branchWeight_outbound[OF v nd] branchWeight_same[OF I(1)] by simp
    have "branchWeight (mdl s) h = Suc (length (outbound nd))"
      using nd' i by (simp add: branchWeight_def)
    with bw fr show ?thesis by (simp add: remaining_def)
  qed
  ultimately show ?thesis using st by simp
qed

lemma preserved_skip:
  assumes inv: "schedInv m0 s" and fr: "frontier s = h # rest"
    and nd: "map_of (modelDAG m0) h = Some nd" and i: "layerClass nd \<noteq> ''InputLayer''"
    and r: "computed (mdl s) h \<or> (\<exists>p \<in> set (inbound nd). \<not> computed (mdl s) p)"
    and t: "traverseNode impl (mdl s) h = (Skip, mdl s)"
  shows "schedInv m0 (step impl s) \<and> remaining (step impl s) < remaining s"
proof -
  note I = schedInvD[OF inv]
  from nd I(1) have nd': "map_of (modelDAG (mdl s)) h = Some nd" by simp
  have st: "step impl s = s\<lparr>frontier := rest\<rparr>" by (rule step_skip[OF fr t])
  have cov: "coverage m0 (computed (mdl s)) (set rest)"
    using coverage_skip[OF nd i r, of "set rest"] I(6) fr by simp
  have "schedInv m0 (s\<lparr>frontier := rest\<rparr>)"
  proof (rule schedInvI)
    show "set (frontier (s\<lparr>frontier := rest\<rparr>)) \<subseteq> set (keys (modelDAG m0))"
      using I(3) fr by auto
    show "coverage m0 (computed (mdl (s\<lparr>frontier := rest\<rparr>))) (set (frontier (s\<lparr>frontier := rest\<rparr>)))"
      using cov by simp
  qed (use I in simp_all)
  moreover have "remaining (s\<lparr>frontier := rest\<rparr>) < remaining s"
    using fr nd' i by (simp add: remaining_def branchWeight_def)
  ultimately show ?thesis using st by simp
qed

lemma layerOk_computedD:
  assumes "layerOk m p" "computed m p"
  shows "\<exists>l. map_of (modelLayersMap m) p = Some l \<and> hasResult l \<and> lresult l \<noteq> None"
  using assms by (cases "map_of (modelLayersMap m) p") (auto simp: layerOk_def computed_def)

lemma preserved_compute:
  assumes v: "validDAG m0" and ok: "callsSucceed impl" and inv: "schedInv m0 s"
    and fr: "frontier s = h # rest"
    and nd: "map_of (modelDAG m0) h = Some nd" and i: "layerClass nd \<noteq> ''InputLayer''"
    and nc: "\<not> computed (mdl s) h"
    and ready: "\<forall>p \<in> set (inbound nd). computed (mdl s) p"
  shows "schedInv m0 (step impl s) \<and> remaining (step impl s) < remaining s"
proof -
  note I = schedInvD[OF inv]
  let ?m = "mdl s"
  from nd I(1) have nd': "map_of (modelDAG ?m) h = Some nd" by simp
  from I(4)[OF nd] obtain cur where cur: "map_of (modelLayersMap ?m) h = Some cur"
    and ln: "lname cur = h" and vh: "visited cur = hasResult cur"
    by (cases "map_of (modelLayersMap ?m) h") (auto simp: layerOk_def)
  from nc cur have nh: "\<not> hasResult cur" by (simp add: computed_def)
  with vh have nv: "\<not> visited cur" by simp
  have ils: "\<forall>p \<in> set (inbound nd). \<exists>l. map_of (modelLayersMap ?m) p = Some l \<and> hasResult l \<and> lresult l \<noteq> None"
  proof
    fix p assume p: "p \<in> set (inbound nd)"
    with validDAG_node(5)[OF v nd] obtain pn where "map_of (modelDAG m0) p = Some pn" by blast
    from I(4)[OF this] ready p show "\<exists>l. map_of (modelLayersMap ?m) p = Some l \<and> hasResult l \<and> lresult l \<noteq> None"
      by (intro layerOk_computedD) auto
  qed
  have ins: "\<forall>p \<in> set (inbound nd). map_of (modelDAG ?m) p \<noteq> None"
    using validDAG_node(5)[OF v nd] I(1) by fastforce
  have ne: "inbound nd \<noteq> []" using validDAG_node(4)[OF v nd] i by simp
  from traverseNode_compute[OF nd' i cur nv ils ins ne ok] ln
  obtain res n where tn: "traverseNode impl ?m h = (Computed (outbound nd),
        storeResult h cur res (?m\<lparr>tensorsCreated := n, callLog := callLog ?m @ [h]\<rparr>))"
    by auto
  define m' where "m' = storeResult h cur res (?m\<lparr>tensorsCreated := n, callLog := callLog ?m @ [h]\<rparr>)"
  define fr' where "fr' = (if layerCallPauses m' then rest @ outbound nd else outbound nd @ rest)"
  have st: "step impl s = s\<lparr>mdl := m', frontier := fr'\<rparr>"
    using fr tn by (simp add: step_def m'_def fr'_def)
  have dag: "modelDAG m' = modelDAG m0" by (simp add: m'_def storeResult_simps I(1))
  have comp: "\<And>k. computed m' k = (k = h \<or> computed ?m k)"
    by (simp add: m'_def computed_storeResult ghost_simps)
  have compf: "computed m' = (\<lambda>k. k = h \<or> computed ?m k)"
    by (simp add: fun_eq_iff comp)
  have lay: "\<And>k. layerOk ?m k \<Longrightarrow> layerOk m' k"
    unfolding m'_def by (rule layerOk_storeResult) (simp_all add: ghost_simps cur)
  have log': "callLog m' = callLog ?m @ [h]" by (simp add: m'_def storeResult_simps)
  have setfr: "set fr' = set (outbound nd) \<union> set rest" by (auto simp: fr'_def)
  have hk: "h \<in> set (keys (modelDAG m0))" using nd by (simp add: keys_map_of)
  have "schedInv m0 (s\<lparr>mdl := m', frontier := fr'\<rparr>)"
  proof (rule schedInvI)
    show "modelDAG (mdl (s\<lparr>mdl := m', frontier := fr'\<rparr>)) = modelDAG m0" using dag by simp
    show "\<not> rejected (s\<lparr>mdl := m', frontier := fr'\<rparr>)" using I(2) by simp
    show "set (frontier (s\<lparr>mdl := m', frontier := fr'\<rparr>)) \<subseteq> set (keys (modelDAG m0))"
      using outbound_keys[OF v nd] I(3) fr setfr by auto
    show "\<And>k nd. map_of (modelDAG m0) k = Some nd \<Longrightarrow> layerOk (mdl (s\<lparr>mdl := m', frontier := fr'\<rparr>)) k"
      using I(4) lay by simp
    show "\<And>k nd. map_of (modelDAG m0) k = Some nd \<Longrightarrow> layerClass nd = ''InputLayer''
        \<Longrightarrow> computed (mdl (s\<lparr>mdl := m', frontier := fr'\<rparr>)) k"
      using I(5) comp by simp
    have "coverage m0 (\<lambda>k. k = h \<or> computed ?m k) (set (outbound nd) \<union> set rest)"
      using coverage_compute[OF v nd i, of "computed ?m" "set rest"] I(6) fr by simp
    then show "coverage m0 (computed (mdl (s\<lparr>mdl := m', frontier := fr'\<rparr>)))
        (set (frontier (s\<lparr>mdl := m', frontier := fr'\<rparr>)))"
      using compf setfr by simp
    from I(7) obtain log where log: "callLog ?m = callLog m0 @ log" "distinct log"
      "set log = {k \<in> set (keys (modelDAG m0)). computed ?m k}" by blast
    have "callLog m' = callLog m0 @ (log @ [h])" using log' log(1) by simp
    moreover have "distinct (log @ [h])" using log(2,3) nc by auto
    moreover have "set (log @ [h]) = {k \<in> set (keys (modelDAG m0)). computed m' k}"
      using log(3) comp hk by auto
    ultimately show "\<exists>log. callLog (mdl (s\<lparr>mdl := m', frontier := fr'\<rparr>)) = callLog m0 @ log \<and> distinct log
         \<and> set log = {k \<in> set (keys (modelDAG m0)). computed (mdl (s\<lparr>mdl := m', frontier := fr'\<rparr>)) k}"
      by (intro exI[of _ "log @ [h]"]) simp
  qed
  moreover have "remaining (s\<lparr>mdl := m', frontier := fr'\<rparr>) < remaining s"
  proof -
    have dag': "modelDAG m' = modelDAG ?m" using dag I(1) by simp
    have d: "distinct (keys (modelDAG ?m))" using v I(1) by (simp add: validDAG_def)
    have pe: "pendingEdges m' + length (outbound nd) = pendingEdges ?m"
      by (rule pendingEdges_compute[OF d nd' i nc dag']) (simp add: comp)
    have bw: "branchWeight m' = branchWeight ?m" by (rule branchWeight_same[OF dag'])
    have bo: "sum_list (map (branchWeight ?m) (outbound nd)) = length (outbound nd)"
      using branchWeight_outbound[OF v nd] branchWeight_same[OF I(1)] by simp
    have bh: "branchWeight ?m h = 1" using nd' i by (simp add: branchWeight_def)
    have "sum_list (map (branchWeight m') fr') = length (outbound nd) + sum_list (map (branchWeight ?m) rest)"
      using bw bo by (simp add: fr'_def)
    with pe bh fr show ?thesis by (simp add: remaining_def)
  qed
  ultimately show ?thesis using st by simp
qed

lemma step_preserves:
  assumes v: "validDAG m0" and ok: "callsSucceed impl" and inv: "schedInv m0 s"
    and fr: "frontier s = h # rest"
  shows "schedInv m0 (step impl s) \<and> remaining (step impl s) < remaining s"
proof -
  note I = schedInvD[OF inv]
  from I(3) fr have "h \<in> set (keys (modelDAG m0))" by simp
  then obtain nd where nd: "map_of (modelDAG m0) h = Some nd" by (auto simp: keys_map_of)
  from nd I(1) have nd': "map_of (modelDAG (mdl s)) h = Some nd" by simp
  show ?thesis
  proof (cases "layerClass nd = ''InputLayer''")
    case True
    then show ?thesis by (rule preserved_input[OF v inv fr nd])
  next
    case i: False
    from I(4)[OF nd] obtain cur where cur: "map_of (modelLayersMap (mdl s)) h = Some cur"
      and vh: "visited cur = hasResult cur"
      by (cases "map_of (modelLayersMap (mdl s)) h") (auto simp: layerOk_def)
    show ?thesis
    proof (cases "computed (mdl s) h")
      case True
      with cur vh have "visited cur" by (simp add: computed_def)
      from traverseNode_visited[OF nd' i cur this]
      have "traverseNode impl (mdl s) h = (Skip, mdl s)" .
      with True show ?thesis by (intro preserved_skip[OF inv fr nd i]) auto
    next
      case nc: False
      with cur vh have nv: "\<not> visited cur" by (simp add: computed_def)
      show ?thesis
      proof (cases "\<forall>p \<in> set (inbound nd). computed (mdl s) p")
        case True
        then show ?thesis by (rule preserved_compute[OF v ok inv fr nd i nc])
      next
        case False
        have ex: "\<forall>p \<in> set (inbound nd). map_of (modelLayersMap (mdl s)) p \<noteq> None"
        proof
          fix p assume "p \<in> set (inbound nd)"
          with validDAG_node(5)[OF v nd] obtain pn where "map_of (modelDAG m0) p = Some pn" by blast
          from I(4)[OF this] show "map_of (modelLayersMap (mdl s)) p \<noteq> None"
            by (auto simp: layerOk_def split: option.splits)
        qed
        from False have nr: "\<exists>p \<in> set (inbound nd). \<not> computed (mdl s) p" by blast
        from traverseNode_notReady[OF nd' i cur nv ex nr]
        have "traverseNode impl (mdl s) h = (Skip, mdl s)" .
        with nr show ?thesis by (intro preserved_skip[OF inv fr nd i]) auto
      qed
    qed
  qed
qed

lemma traverseDAG_terminates:
  assumes v: "validDAG m0" and ok: "callsSucceed impl"
  shows "schedInv m0 s \<Longrightarrow> remaining s \<le> fuel
    \<Longrightarrow> \<exists>s'. traverseDAG impl fuel s = Some s' \<and> schedInv m0 s' \<and> frontier s' = []"
proof (induction fuel arbitrary: s)
  case 0
  then have sum0: "sum_list (map (branchWeight (mdl s)) (frontier s)) = 0" by (simp add: remaining_def)
  have "frontier s = []"
  proof (cases "frontier s")
    case Nil
    then show ?thesis .
  next
    case (Cons a list)
    with sum0 have "branchWeight (mdl s) a = 0" by simp
    then show ?thesis by (simp add: branchWeight_def split: option.splits if_splits)
  qed
  with 0 show ?case by simp
next
  case (Suc fuel)
  show ?case
  proof (cases "frontier s")
    case Nil
    with Suc.prems show ?thesis by simp
  next
    case (Cons h rest)
    from step_preserves[OF v ok Suc.prems(1) Cons] Suc.prems(2)
    have "schedInv m0 (step impl s)" "remaining (step impl s) \<le> fuel" by auto
    from Suc.IH[OF this] Cons show ?thesis by simp
  qed
qed

lemma keys_update: "k \<in> set (keys al) \<Longrightarrow> keys (AList.update k v al) = keys al"
  unfolding keys_def by (induction al) auto

lemma map_of_resetLayers:
  "map_of (modelLayersMap (resetLayers m)) k
     = map_option (\<lambda>l. l\<lparr>hasResult := False, visited := False\<rparr>) (map_of (modelLayersMap m) k)"
proof -
  have "map_of (map (\<lambda>(k, l). (k, l\<lparr>hasResult := False, visited := False\<rparr>)) al) k
     = map_option (\<lambda>l. l\<lparr>hasResult := False, visited := False\<rparr>) (map_of al k)" for al :: "(string \<times> 'a layer) list"
    by (induction al) auto
  then show ?thesis by (simp add: resetLayers_def)
qed

lemma resetLayers_simps:
  "modelDAG (resetLayers m) = modelDAG m"
  "modelClass (resetLayers m) = modelClass m"
  "inputTensors (resetLayers m) = inputTensors m"
  "isRunning (resetLayers m) = isRunning m"
  "layerCallPauses (resetLayers m) = layerCallPauses m"
  "callLog (resetLayers m) = callLog m"
  "tensorsCreated (resetLayers m) = tensorsCreated m"
  by (simp_all add: resetLayers_def)

lemma seedInputs_ok:
  assumes ok: "callsSucceed impl"
  shows "distinct names \<Longrightarrow>
    (\<forall>n \<in> set names. map_of (inputTensors m) n \<noteq> None \<and> isFloat32Array (map_of inputData n)
        \<and> (\<exists>l. map_of (modelLayersMap m) n = Some l \<and> lname l = n)) \<Longrightarrow>
    \<exists>m'. seedInputs impl inputData names m = (Inr (), m')
      \<and> modelDAG m' = modelDAG m \<and> modelClass m' = modelClass m \<and> isRunning m' = isRunning m
      \<and> layerCallPauses m' = layerCallPauses m \<and> keys (inputTensors m') = keys (inputTensors m)
      \<and> callLog m' = callLog m @ names
      \<and> (\<forall>k \<in> set names. \<exists>l. map_of (modelLayersMap m') k = Some l \<and> lname l = k
             \<and> hasResult l \<and> visited l \<and> lresult l \<noteq> None)
      \<and> (\<forall>k. k \<notin> set names \<longrightarrow> map_of (modelLayersMap m') k = map_of (modelLayersMap m) k)"
proof (induction names arbitrary: m)
  case Nil
  then show ?case by simp
next
  case (Cons n rest)
  from Cons.prems obtain t d l where t: "map_of (inputTensors m) n = Some t"
    and d: "map_of inputData n = Some (Float32Array d)"
    and l: "map_of (modelLayersMap m) n = Some l" "lname l = n"
    by (auto simp: isFloat32Array_def split: option.splits jsval.splits)
  define t' where "t' = replaceTensorData t d"
  define m1 where "m1 = m\<lparr>inputTensors := AList.update n t' (inputTensors m)\<rparr>"
  from invokeCall_succeeds[OF ok, of l "Single t'" m1] l(2) obtain r where
    r: "invokeCall impl l (Single t') m1 = (Inr r, m1\<lparr>callLog := callLog m1 @ [n]\<rparr>)" by auto
  define m2 where "m2 = m1\<lparr>callLog := callLog m1 @ [n], modelLayersMap :=
       AList.update n (l\<lparr>lresult := Some r, hasResult := True, visited := True\<rparr>)
         (modelLayersMap m1)\<rparr>"
  have step: "seedInputs impl inputData (n # rest) m = seedInputs impl inputData rest m2"
    using t d l r by (simp add: t'_def[symmetric] m1_def[symmetric] m2_def Let_def)
  have nk: "n \<in> set (keys (inputTensors m))" using t by (simp add: keys_map_of)
  have m2s: "modelDAG m2 = modelDAG m" "modelClass m2 = modelClass m" "isRunning m2 = isRunning m"
    "layerCallPauses m2 = layerCallPauses m" "callLog m2 = callLog m @ [n]"
    by (simp_all add: m2_def m1_def)
  have m2k: "keys (inputTensors m2) = keys (inputTensors m)"
    using keys_update[OF nk] by (simp add: m2_def m1_def)
  have m2i: "map_of (inputTensors m2) = (map_of (inputTensors m))(n \<mapsto> t')"
    by (simp add: m2_def m1_def update_conv')
  have m2l: "map_of (modelLayersMap m2)
      = (map_of (modelLayersMap m))(n \<mapsto> l\<lparr>lresult := Some r, hasResult := True, visited := True\<rparr>)"
    by (simp add: m2_def m1_def update_conv')
  from Cons.prems have dr: "distinct rest" and nr: "n \<notin> set rest" by auto
  have pre: "\<forall>k \<in> set rest. map_of (inputTensors m2) k \<noteq> None \<and> isFloat32Array (map_of inputData k)
        \<and> (\<exists>l. map_of (modelLayersMap m2) k = Some l \<and> lname l = k)"
    using Cons.prems(2) nr by (auto simp: m2i m2l)
  from Cons.IH[OF dr pre] obtain m' where m': "seedInputs impl inputData rest m2 = (Inr (), m')"
      "modelDAG m' = modelDAG m2" "modelClass m' = modelClass m2" "isRunning m' = isRunning m2"
      "layerCallPauses m' = layerCallPauses m2" "keys (inputTensors m') = keys (inputTensors m2)"
      "callLog m' = callLog m2 @ rest"
      "\<forall>k \<in> set rest. \<exists>l. map_of (modelLayersMap m') k = Some l \<and> lname l = k
             \<and> hasResult l \<and> visited l \<and> lresult l \<noteq> None"
      "\<forall>k. k \<notin> set rest \<longrightarrow> map_of (modelLayersMap m') k = map_of (modelLayersMap m2) k"
    by blast
  have a: "\<forall>k \<in> set (n # rest). \<exists>l. map_of (modelLayersMap m') k = Some l \<and> lname l = k
             \<and> hasResult l \<and> visited l \<and> lresult l \<noteq> None"
  proof
    fix k assume k: "k \<in> set (n # rest)"
    show "\<exists>l. map_of (modelLayersMap m') k = Some l \<and> lname l = k
             \<and> hasResult l \<and> visited l \<and> lresult l \<noteq> None"
    proof (cases "k \<in> set rest")
      case True
      with m'(8) show ?thesis by blast
    next
      case False
      with k have "k = n" by simp
      with False m'(9) m2l l(2) show ?thesis by simp
    qed
  qed
  have b: "\<forall>k. k \<notin> set (n # rest) \<longrightarrow> map_of (modelLayersMap m') k = map_of (modelLayersMap m) k"
    using m'(9) m2l by simp
  from step m' m2s m2k a b show ?case by simp
qed

lemma topoOrdered_before:
  "topoOrdered seen (xs @ (c, cn) # ys) \<Longrightarrow> set (inbound cn) \<subseteq> set seen \<union> fst ` set xs"
proof (induction xs arbitrary: seen)
  case Nil
  then show ?case by (auto simp: list_all_iff)
next
  case (Cons x xs)
  obtain k nd where x: "x = (k, nd)" by (cases x)
  with Cons.prems have "topoOrdered (k # seen) (xs @ (c, cn) # ys)" by simp
  from Cons.IH[OF this] x show ?case by auto
qed

lemma topoOrdered_all:
  assumes "topoOrdered seen G" "\<forall>k \<in> set seen. C k"
    "\<forall>(k, nd) \<in> set G. (\<forall>p \<in> set (inbound nd). C p) \<longrightarrow> C k"
  shows "\<forall>(k, nd) \<in> set G. C k"
  using assms
proof (induction G arbitrary: seen)
  case Nil
  then show ?case by simp
next
  case (Cons x G)
  obtain k nd where x: "x = (k, nd)" by (cases x)
  from Cons.prems(1) x have inb: "\<forall>p \<in> set (inbound nd). p \<in> set seen"
    and topo: "topoOrdered (k # seen) G" by (simp_all add: list_all_iff)
  from inb Cons.prems(2) have "\<forall>p \<in> set (inbound nd). C p" by blast
  with Cons.prems(3) x have ck: "C k" by auto
  with Cons.prems(2) have "\<forall>k' \<in> set (k # seen). C k'" by simp
  from Cons.IH[OF topo this] Cons.prems(3) have "\<forall>(k, nd) \<in> set G. C k" by simp
  with ck x show ?case by simp
qed

lemma map_of_distinct_keys:
  "distinct (keys al) \<Longrightarrow> (k, v) \<in> set al \<Longrightarrow> map_of al k = Some v"
  by (simp add: keys_def)

lemma finished_all_computed:
  assumes v: "validDAG m0" and inv: "schedInv m0 s" and fin: "frontier s = []"
    and k: "map_of (modelDAG m0) k = Some nd"
  shows "computed (mdl s) k"
proof -
  note I = schedInvD[OF inv]
  from v have d: "distinct (keys (modelDAG m0))" and topo: "topoOrdered [] (modelDAG m0)"
    by (simp_all add: validDAG_def)
  have stepc: "\<forall>(k, nd) \<in> set (modelDAG m0). (\<forall>p \<in> set (inbound nd). computed (mdl s) p) \<longrightarrow> computed (mdl s) k"
  proof (clarify)
    fix k' nd' assume m: "(k', nd') \<in> set (modelDAG m0)" and r: "\<forall>p \<in> set (inbound nd'). computed (mdl s) p"
    from map_of_distinct_keys[OF d m] have k': "map_of (modelDAG m0) k' = Some nd'" .
    show "computed (mdl s) k'"
    proof (cases "layerClass nd' = ''InputLayer''")
      case True
      with I(5)[OF k'] show ?thesis by simp
    next
      case False
      show ?thesis
      proof (rule ccontr)
        assume "\<not> computed (mdl s) k'"
        with I(6) k' False fin have "\<exists>p \<in> set (inbound nd'). \<not> computed (mdl s) p"
          unfolding coverage_def by fastforce
        with r show False by blast
      qed
    qed
  qed
  from topoOrdered_all[OF topo _ stepc] have "\<forall>(k, nd) \<in> set (modelDAG m0). computed (mdl s) k" by simp
  with map_of_SomeD[OF k] show ?thesis by blast
qed

lemma last_node_no_outbound:
  assumes v: "validDAG m" and g: "modelDAG m = xs @ [(k, nd)]"
  shows "outbound nd = []"
proof (rule ccontr)
  assume "outbound nd \<noteq> []"
  then obtain c where c: "c \<in> set (outbound nd)" by (cases "outbound nd") auto
  from v have d: "distinct (keys (modelDAG m))" and topo: "topoOrdered [] (modelDAG m)"
    by (simp_all add: validDAG_def)
  from d g have kx: "k \<notin> fst ` set xs" by (auto simp: keys_def)
  have knd: "map_of (modelDAG m) k = Some nd"
    by (rule map_of_distinct_keys[OF d]) (simp add: g)
  from validDAG_node(6)[OF v knd] c obtain cn where cn: "map_of (modelDAG m) c = Some cn"
    "k \<in> set (inbound cn)" by blast
  from map_of_SomeD[OF cn(1)] have "(c, cn) \<in> set (xs @ [(k, nd)])" by (simp add: g)
  then obtain as bs where split: "xs @ [(k, nd)] = as @ (c, cn) # bs" by (meson split_list)
  with topo g have "set (inbound cn) \<subseteq> fst ` set as"
    using topoOrdered_before[of "[]" as c cn bs] by simp
  with cn(2) have ka: "k \<in> fst ` set as" by blast
  have "fst ` set as \<subseteq> fst ` set xs"
  proof (cases bs rule: rev_cases)
    case Nil
    with split have "xs = as" by simp
    then show ?thesis by simp
  next
    case (snoc bs' b)
    with split have "xs = as @ (c, cn) # bs'" by simp
    then show ?thesis by auto
  qed
  with ka kx show False by blast
qed

lemma find_outputLayer:
  assumes v: "validDAG m"
  shows "\<exists>nd. find (\<lambda>nd. outbound nd = []) (map snd (modelDAG m)) = Some nd
     \<and> map_of (modelDAG m) (nname nd) = Some nd"
proof -
  from v have d: "distinct (keys (modelDAG m))" by (simp add: validDAG_def)
  from v have "keys (inputTensors m) \<noteq> []" "list_all (\<lambda>k. k \<in> set (keys (modelDAG m))) (keys (inputTensors m))"
    by (simp_all add: validDAG_def)
  then have "modelDAG m \<noteq> []" by (cases "keys (inputTensors m)") (auto simp: keys_def)
  then obtain xs k nd where g: "modelDAG m = xs @ [(k, nd)]"
    by (cases "modelDAG m" rule: rev_cases) auto
  from last_node_no_outbound[OF v g] have "\<exists>x \<in> set (map snd (modelDAG m)). outbound x = []"
    by (auto simp: g)
  then obtain nd' where f: "find (\<lambda>nd. outbound nd = []) (map snd (modelDAG m)) = Some nd'"
    by (cases "find (\<lambda>nd. outbound nd = []) (map snd (modelDAG m))") (auto simp: find_None_iff)
  then have "nd' \<in> set (map snd (modelDAG m))" by (auto simp: find_Some_iff)
  then obtain k' where m: "(k', nd') \<in> set (modelDAG m)" by auto
  from map_of_distinct_keys[OF d m] have k': "map_of (modelDAG m) k' = Some nd'" .
  from validDAG_node(1)[OF v k'] k' f show ?thesis by simp
qed

lemma computed_resultData:
  "layerOk m k \<Longrightarrow> computed m k \<Longrightarrow> resultData m k \<noteq> None"
  by (auto simp: layerOk_def computed_def resultData_def split: option.splits)

lemma collectOutputs_succeeds:
  "\<forall>nd \<in> set nds. resultData m (nname nd) \<noteq> None \<Longrightarrow> \<exists>od. collectOutputs m nds acc = Inr od"
  by (induction nds arbitrary: acc) auto

lemma traverseNode_static:
  assumes "traverseNode impl m node = (v, m')"
  shows "modelClass m' = modelClass m \<and> modelDAG m' = modelDAG m \<and> inputTensors m' = inputTensors m
     \<and> isRunning m' = isRunning m \<and> layerCallPauses m' = layerCallPauses m"
proof -
  from traverseNode_model[OF assms] consider
    (a) "m' = m\<lparr>tensorsCreated := tensorsCreated m', callLog := callLog m'\<rparr>"
  | (b) cur res m1 where "m1 = m\<lparr>tensorsCreated := tensorsCreated m1, callLog := callLog m1\<rparr>"
      "m' = storeResult node cur res m1" by blast
  then show ?thesis
  proof cases
    case a
    obtain x y where "m' = m\<lparr>tensorsCreated := x, callLog := y\<rparr>" using a by blast
    then show ?thesis by simp
  next
    case b
    obtain x y where "m1 = m\<lparr>tensorsCreated := x, callLog := y\<rparr>" using b(1) by blast
    with b(2) show ?thesis by (simp add: storeResult_simps)
  qed
qed

lemma step_static:
  "modelClass (mdl (step impl s)) = modelClass (mdl s) \<and> modelDAG (mdl (step impl s)) = modelDAG (mdl s)
     \<and> inputTensors (mdl (step impl s)) = inputTensors (mdl s)
     \<and> isRunning (mdl (step impl s)) = isRunning (mdl s)
     \<and> layerCallPauses (mdl (step impl s)) = layerCallPauses (mdl s)"
proof (cases "frontier s")
  case Nil
  then show ?thesis by (simp add: step_def)
next
  case (Cons h rest)
  obtain v m' where t: "traverseNode impl (mdl s) h = (v, m')" by (metis surj_pair)
  from traverseNode_static[OF t] Cons t show ?thesis
    by (cases v) (simp_all add: step_def)
qed

lemma traverseDAG_static:
  "traverseDAG impl fuel s = Some s' \<Longrightarrow>
     modelClass (mdl s') = modelClass (mdl s) \<and> modelDAG (mdl s') = modelDAG (mdl s)
     \<and> inputTensors (mdl s') = inputTensors (mdl s)
     \<and> isRunning (mdl s') = isRunning (mdl s)
     \<and> layerCallPauses (mdl s') = layerCallPauses (mdl s)"
proof (induction fuel arbitrary: s)
  case 0
  then show ?case by (auto split: if_splits)
next
  case (Suc fuel)
  show ?case
  proof (cases "frontier s = []")
    case True
    with Suc.prems show ?thesis by simp
  next
    case False
    with Suc.prems have "traverseDAG impl fuel (step impl s) = Some s'" by simp
    from Suc.IH[OF this] step_static[of impl s] show ?thesis by simp
  qed
qed

lemma validDAG_cong:
  assumes v: "validDAG m" and g: "modelDAG m' = modelDAG m"
    and i: "keys (inputTensors m') = keys (inputTensors m)"
    and l: "\<And>k nd. map_of (modelDAG m) k = Some nd \<Longrightarrow> \<exists>l. map_of (modelLayersMap m') k = Some l \<and> lname l = k"
  shows "validDAG m'"
proof -
  from v have d: "distinct (keys (modelDAG m))" by (simp add: validDAG_def)
  have "list_all (nodeOk m') (modelDAG m)"
    unfolding list_all_iff
  proof
    fix x assume x: "x \<in> set (modelDAG m)"
    obtain k nd where kn: "x = (k, nd)" by (cases x)
    from map_of_distinct_keys[OF d] x kn have k: "map_of (modelDAG m) k = Some nd" by simp
    from x v have "nodeOk m x" by (simp add: validDAG_def list_all_iff)
    with l[OF k] kn show "nodeOk m' x" by (auto simp: nodeOk_def g i)
  qed
  with v show ?thesis by (simp add: validDAG_def g i)
qed

lemma sum_outbound_bound: "pendingEdges m \<le> sum_list (map (\<lambda>(k, nd). length (outbound nd)) (modelDAG m))"
  unfolding pendingEdges_def by (rule sum_list_mono) auto

lemma initial_schedInv:
  assumes v: "validDAG m" and ok: "callsSucceed impl" and vo: "valuesOk inputData m"
  shows "\<exists>m1. seedInputs impl inputData (sort (keys (inputTensors m))) (resetLayers (m\<lparr>isRunning := True\<rparr>))
            = (Inr (), m1)
     \<and> schedInv m \<lparr>mdl = m1, frontier = sort (keys (inputTensors m)), rejected = False\<rparr>
     \<and> remaining \<lparr>mdl = m1, frontier = sort (keys (inputTensors m)), rejected = False\<rparr> \<le> fuelBound m
     \<and> modelClass m1 = modelClass m \<and> layerCallPauses m1 = layerCallPauses m
     \<and> keys (inputTensors m1) = keys (inputTensors m) \<and> isRunning m1"
proof -
  let ?names = "sort (keys (inputTensors m))"
  let ?mr = "resetLayers (m\<lparr>isRunning := True\<rparr>)"
  from v have d: "distinct (keys (modelDAG m))" and di: "distinct (keys (inputTensors m))"
    and sub: "set (keys (inputTensors m)) \<subseteq> set (keys (modelDAG m))"
    by (auto simp: validDAG_def list_all_iff)
  have dn: "distinct ?names" using di by simp
  have sn: "set ?names = set (keys (inputTensors m))" by simp
  have lay0: "\<exists>l. map_of (modelLayersMap ?mr) k = Some l \<and> lname l = k \<and> \<not> hasResult l \<and> \<not> visited l"
    if "map_of (modelDAG m) k = Some nd" for k nd
    using validDAG_node(2)[OF v that] by (auto simp: map_of_resetLayers)
  have pre: "\<forall>n \<in> set ?names. map_of (inputTensors ?mr) n \<noteq> None \<and> isFloat32Array (map_of inputData n)
        \<and> (\<exists>l. map_of (modelLayersMap ?mr) n = Some l \<and> lname l = n)"
  proof
    fix n assume n: "n \<in> set ?names"
    then have nk: "n \<in> set (keys (inputTensors m))" by simp
    with sub have "n \<in> set (keys (modelDAG m))" by blast
    then obtain nd where "map_of (modelDAG m) n = Some nd" by (auto simp: keys_map_of)
    from lay0[OF this] have "\<exists>l. map_of (modelLayersMap ?mr) n = Some l \<and> lname l = n" by blast
    moreover from nk have "map_of (inputTensors ?mr) n \<noteq> None"
      by (simp add: resetLayers_simps keys_map_of)
    moreover from vo n have "isFloat32Array (map_of inputData n)"
      by (simp add: valuesOk_def list_all_iff)
    ultimately show "map_of (inputTensors ?mr) n \<noteq> None \<and> isFloat32Array (map_of inputData n)
        \<and> (\<exists>l. map_of (modelLayersMap ?mr) n = Some l \<and> lname l = n)" by blast
  qed
  from seedInputs_ok[OF ok dn pre] obtain m1 where
    seed: "seedInputs impl inputData ?names ?mr = (Inr (), m1)"
    and st: "modelDAG m1 = modelDAG m" "modelClass m1 = modelClass m" "isRunning m1"
      "layerCallPauses m1 = layerCallPauses m" "keys (inputTensors m1) = keys (inputTensors m)"
    and lg: "callLog m1 = callLog m @ ?names"
    and inl: "\<forall>k \<in> set ?names. \<exists>l. map_of (modelLayersMap m1) k = Some l \<and> lname l = k
             \<and> hasResult l \<and> visited l \<and> lresult l \<noteq> None"
    and outl: "\<forall>k. k \<notin> set ?names \<longrightarrow> map_of (modelLayersMap m1) k = map_of (modelLayersMap ?mr) k"
    by (auto simp: resetLayers_simps)
  let ?s = "\<lparr>mdl = m1, frontier = ?names, rejected = False\<rparr>"
  have comp: "computed m1 k = (k \<in> set ?names)" if "map_of (modelDAG m) k = Some nd" for k nd
  proof (cases "k \<in> set ?names")
    case True
    with inl show ?thesis by (auto simp: computed_def)
  next
    case False
    with outl lay0[OF that] show ?thesis by (auto simp: computed_def)
  qed
  have lok: "layerOk m1 k" if "map_of (modelDAG m) k = Some nd" for k nd
  proof (cases "k \<in> set ?names")
    case True
    with inl show ?thesis by (auto simp: layerOk_def)
  next
    case False
    with outl lay0[OF that] show ?thesis by (auto simp: layerOk_def)
  qed
  have inp: "(layerClass nd = ''InputLayer'') = (k \<in> set ?names)" if "map_of (modelDAG m) k = Some nd" for k nd
    using validDAG_node(3)[OF v that] by simp
  have cov: "coverage m (computed m1) (set ?names)"
    unfolding coverage_def
  proof (intro allI impI)
    fix k nd
    assume a: "map_of (modelDAG m) k = Some nd \<and> layerClass nd \<noteq> ''InputLayer'' \<and> \<not> computed m1 k"
    then have k: "map_of (modelDAG m) k = Some nd" and ni: "layerClass nd \<noteq> ''InputLayer''" by simp_all
    from validDAG_node(4)[OF v k] ni obtain p where p: "p \<in> set (inbound nd)"
      by (cases "inbound nd") auto
    from validDAG_node(5)[OF v k] p obtain pn where pn: "map_of (modelDAG m) p = Some pn" by blast
    show "(\<exists>p \<in> set (inbound nd). \<not> computed m1 p) \<or> k \<in> set ?names
        \<or> (\<exists>p \<in> set (inbound nd). p \<in> set ?names \<and> isInputNode m p)"
    proof (cases "computed m1 p")
      case True
      with comp[OF pn] have pin: "p \<in> set ?names" by simp
      with inp[OF pn] pn have "isInputNode m p" by (simp add: isInputNode_def)
      with p pin show ?thesis by blast
    next
      case False
      with p show ?thesis by blast
    qed
  qed
  have inv: "schedInv m ?s"
  proof (rule schedInvI)
    show "set (frontier ?s) \<subseteq> set (keys (modelDAG m))" using sub by simp
    show "\<And>k nd. map_of (modelDAG m) k = Some nd \<Longrightarrow> layerOk (mdl ?s) k" using lok by simp
    show "\<And>k nd. map_of (modelDAG m) k = Some nd \<Longrightarrow> layerClass nd = ''InputLayer'' \<Longrightarrow> computed (mdl ?s) k"
      using comp inp by simp
    show "coverage m (computed (mdl ?s)) (set (frontier ?s))" using cov by simp
    have "set ?names = {k \<in> set (keys (modelDAG m)). computed m1 k}"
    proof (intro set_eqI iffI)
      fix k assume kn: "k \<in> set ?names"
      with sub sn have kk: "k \<in> set (keys (modelDAG m))" by blast
      then obtain nd where "map_of (modelDAG m) k = Some nd" by (auto simp: keys_map_of)
      from comp[OF this] kn kk show "k \<in> {k \<in> set (keys (modelDAG m)). computed m1 k}" by simp
    next
      fix k assume "k \<in> {k \<in> set (keys (modelDAG m)). computed m1 k}"
      then have kk: "k \<in> set (keys (modelDAG m))" and c: "computed m1 k" by simp_all
      from kk obtain nd where "map_of (modelDAG m) k = Some nd" by (auto simp: keys_map_of)
      from comp[OF this] c show "k \<in> set ?names" by simp
    qed
    with lg dn show "\<exists>log. callLog (mdl ?s) = callLog m @ log \<and> distinct log
         \<and> set log = {k \<in> set (keys (modelDAG m)). computed (mdl ?s) k}"
      by (intro exI[of _ ?names]) simp
  qed (simp_all add: st)
  have "remaining ?s \<le> fuelBound m"
    using sum_outbound_bound[of m1] branchWeight_same[OF st(1)]
    by (simp add: remaining_def fuelBound_def st(1))
  with seed inv st show ?thesis by simp
qed

lemma outputs_model:
  "outputs m = (r, m') \<Longrightarrow> m' = m \<or> m' = m\<lparr>isRunning := False\<rparr>"
  by (auto simp: outputs_def split: if_splits option.splits sum.splits)

lemma outputs_succeeds:
  assumes v: "validDAG m0" and inv: "schedInv m0 s" and fin: "frontier s = []"
  shows "\<exists>out. fst (outputs (mdl s)) = Inr out"
proof -
  note I = schedInvD[OF inv]
  have rd: "resultData (mdl s) (nname nd) \<noteq> None" if "(k, nd) \<in> set (modelDAG m0)" for k nd
  proof -
    from v have d: "distinct (keys (modelDAG m0))" by (simp add: validDAG_def)
    from map_of_distinct_keys[OF d that] have k: "map_of (modelDAG m0) k = Some nd" .
    from validDAG_node(1)[OF v k] have "nname nd = k" .
    with computed_resultData[OF I(4)[OF k] finished_all_computed[OF v inv fin k]] show ?thesis by simp
  qed
  show ?thesis
  proof (cases "modelClass (mdl s) = ''Sequential''")
    case True
    from find_outputLayer[OF v] obtain nd where nd: "find (\<lambda>nd. outbound nd = []) (map snd (modelDAG m0)) = Some nd"
      "map_of (modelDAG m0) (nname nd) = Some nd" by blast
    from rd[OF map_of_SomeD[OF nd(2)]] obtain d where "resultData (mdl s) (nname nd) = Some d" by auto
    with True nd(1) I(1) show ?thesis by (simp add: outputs_def)
  next
    case ns: False
    show ?thesis
    proof (cases "modelClass (mdl s) = ''Model''")
      case True
      have "\<forall>nd \<in> set (filter (\<lambda>nd. outbound nd = []) (map snd (modelDAG (mdl s)))). resultData (mdl s) (nname nd) \<noteq> None"
        using rd I(1) by auto
      from collectOutputs_succeeds[OF this, of "[]"] True ns show ?thesis
        by (auto simp: outputs_def)
    next
      case False
      with ns show ?thesis by (simp add: outputs_def)
    qed
  qed
qed

lemma predict_succeeds:
  assumes v: "validDAG m" and ok: "callsSucceed impl"
    and n: "namesOk inputData m" and vo: "valuesOk inputData m" and f: "fuelBound m \<le> fuel"
  shows "\<exists>s out. predict impl fuel inputData m = Some (Inr out, snd (outputs (mdl s)))
     \<and> fst (outputs (mdl s)) = Inr out
     \<and> schedInv m s \<and> frontier s = []
     \<and> modelClass (mdl s) = modelClass m \<and> layerCallPauses (mdl s) = layerCallPauses m
     \<and> keys (inputTensors (mdl s)) = keys (inputTensors m) \<and> isRunning (mdl s)"
proof -
  let ?names = "sort (keys (inputTensors m))"
  from initial_schedInv[OF v ok vo] obtain m1 where
    seed: "seedInputs impl inputData ?names (resetLayers (m\<lparr>isRunning := True\<rparr>)) = (Inr (), m1)"
    and inv: "schedInv m \<lparr>mdl = m1, frontier = ?names, rejected = False\<rparr>"
    and rem: "remaining \<lparr>mdl = m1, frontier = ?names, rejected = False\<rparr> \<le> fuelBound m"
    and st: "modelClass m1 = modelClass m" "layerCallPauses m1 = layerCallPauses m"
      "keys (inputTensors m1) = keys (inputTensors m)" "isRunning m1"
    by blast
  from rem f have "remaining \<lparr>mdl = m1, frontier = ?names, rejected = False\<rparr> \<le> fuel" by simp
  from traverseDAG_terminates[OF v ok inv this] obtain s where
    tr: "traverseDAG impl fuel \<lparr>mdl = m1, frontier = ?names, rejected = False\<rparr> = Some s"
    and invs: "schedInv m s" and fin: "frontier s = []" by blast
  from traverseDAG_static[OF tr] st have sts: "modelClass (mdl s) = modelClass m"
    "layerCallPauses (mdl s) = layerCallPauses m" "keys (inputTensors (mdl s)) = keys (inputTensors m)"
    "isRunning (mdl s)" by simp_all
  from outputs_succeeds[OF v invs fin] obtain out where out: "fst (outputs (mdl s)) = Inr out" by blast
  from schedInvD(2)[OF invs] have nr: "\<not> rejected s" .
  have nk: "namesOk inputData (m\<lparr>isRunning := True\<rparr>)" "valuesOk inputData (m\<lparr>isRunning := True\<rparr>)"
    using n vo by (simp_all add: namesOk_def valuesOk_def)
  have "predict impl fuel inputData m = Some (outputs (mdl s))"
    using nk seed tr nr by (simp add: predict_def Let_def)
  with out have "predict impl fuel inputData m = Some (Inr out, snd (outputs (mdl s)))"
    by (metis prod.collapse)
  with out invs fin sts show ?thesis by blast
qed

lemma count_list_distinct: "distinct xs \<Longrightarrow> x \<in> set xs \<Longrightarrow> count_list xs x = 1"
  by (induction xs) auto

lemma predict_computes_all:
  assumes v: "validDAG m" and ok: "callsSucceed impl"
    and n: "namesOk inputData m" and vo: "valuesOk inputData m" and f: "fuelBound m \<le> fuel"
  shows "\<exists>out m' log. predict impl fuel inputData m = Some (Inr out, m')
     \<and> callLog m' = callLog m @ log
     \<and> (\<forall>k \<in> set (keys (modelDAG m)). count_list log k = 1
          \<and> (\<exists>l. map_of (modelLayersMap m') k = Some l \<and> lname l = k \<and> hasResult l \<and> visited l
                \<and> lresult l \<noteq> None))
     \<and> modelDAG m' = modelDAG m \<and> modelClass m' = modelClass m
     \<and> layerCallPauses m' = layerCallPauses m \<and> keys (inputTensors m') = keys (inputTensors m)"
proof -
  from predict_succeeds[OF assms] obtain s out where
    p: "predict impl fuel inputData m = Some (Inr out, snd (outputs (mdl s)))"
    and inv: "schedInv m s" and fin: "frontier s = []"
    and st: "modelClass (mdl s) = modelClass m" "layerCallPauses (mdl s) = layerCallPauses m"
      "keys (inputTensors (mdl s)) = keys (inputTensors m)"
    by blast
  note I = schedInvD[OF inv]
  define m' where "m' = snd (outputs (mdl s))"
  have "outputs (mdl s) = (fst (outputs (mdl s)), m')" by (simp add: m'_def)
  from outputs_model[OF this] have mm: "m' = mdl s \<or> m' = (mdl s)\<lparr>isRunning := False\<rparr>" .
  then have same: "callLog m' = callLog (mdl s)" "modelLayersMap m' = modelLayersMap (mdl s)"
    "modelDAG m' = modelDAG m" "modelClass m' = modelClass m"
    "layerCallPauses m' = layerCallPauses m" "keys (inputTensors m') = keys (inputTensors m)"
    using I(1) st by auto
  from I(7) obtain log where log: "callLog (mdl s) = callLog m @ log" "distinct log"
    "set log = {k \<in> set (keys (modelDAG m)). computed (mdl s) k}" by blast
  have each: "count_list log k = 1
          \<and> (\<exists>l. map_of (modelLayersMap m') k = Some l \<and> lname l = k \<and> hasResult l \<and> visited l
               \<and> lresult l \<noteq> None)"
    if k: "k \<in> set (keys (modelDAG m))" for k
  proof -
    from k obtain nd where nd: "map_of (modelDAG m) k = Some nd" by (auto simp: keys_map_of)
    from finished_all_computed[OF v inv fin nd] have c: "computed (mdl s) k" .
    with k log(3) have "k \<in> set log" by simp
    from count_list_distinct[OF log(2) this] have "count_list log k = 1" .
    moreover from I(4)[OF nd] c have "\<exists>l. map_of (modelLayersMap (mdl s)) k = Some l \<and> lname l = k
        \<and> hasResult l \<and> visited l \<and> lresult l \<noteq> None"
      by (auto simp: layerOk_def computed_def split: option.splits)
    ultimately show ?thesis using same(2) by simp
  qed
  from p each same log(1) show ?thesis unfolding m'_def[symmetric] by auto
qed

section \<open>Well-formed graphs: the traversal ends whatever the layers do\<close>

lemma traverseNode_nonInput:
  assumes nd: "map_of (modelDAG m) node = Some nd" and ni: "layerClass nd \<noteq> ''InputLayer''"
  shows "fst (traverseNode impl m node) \<noteq> Descend out"
proof -
  obtain v m' where t: "traverseNode impl m node = (v, m')" by (metis surj_pair)
  have "v \<noteq> Descend out"
  proof (cases "map_of (modelLayersMap m) node")
    case None
    with t nd ni show ?thesis by (auto simp: traverseNode_def)
  next
    case (Some cur)
    note cur = this
    show ?thesis
    proof (cases "visited cur")
      case True
      with t nd ni cur show ?thesis by (auto simp: traverseNode_def)
    next
      case nv: False
      show ?thesis
      proof (cases "lookupAll (modelLayersMap m) (inbound nd)")
        case None
        with t nd ni cur nv show ?thesis by (auto simp: traverseNode_def)
      next
        case (Some ils)
        note ils = this
        show ?thesis
        proof (cases "list_all hasResult ils")
          case False
          with t nd ni cur nv ils show ?thesis by (auto simp: traverseNode_def)
        next
          case ready: True
          show ?thesis
          proof (cases "lookupAll (modelDAG m) (inbound nd)")
            case None
            with t nd ni cur nv ils ready show ?thesis by (auto simp: traverseNode_def)
          next
            case (Some ins)
            obtain r m1 where call:
                "(if layerClass nd = ''Merge''
                  then mergeLayerCall impl cur ils (copyBeforeCall ins) m
                  else regularLayerCall impl cur (case ils of [] \<Rightarrow> None | l # _ \<Rightarrow> Some l)
                         (copyBeforeCall ins) m) = (r, m1)"
              by (metis surj_pair)
            from t nd ni cur nv ils ready Some call
            have "(v, m') = (case r of Inl e \<Rightarrow> (Throw, m1)
                           | Inr res \<Rightarrow> (Computed (outbound nd), storeResult node cur res m1))"
              by (simp add: traverseNode_def)
            then show ?thesis by (cases r) auto
          qed
        qed
      qed
    qed
  qed
  with t show ?thesis by simp
qed

lemma weak_step:
  assumes v: "validDAG m0" and inv: "weakInv m0 s" and fr: "frontier s = h # rest"
  shows "weakInv m0 (step impl s) \<and> remaining (step impl s) < remaining s
     \<and> (rejected s \<longrightarrow> rejected (step impl s))"
proof -
  let ?m = "mdl s"
  from inv have dag: "modelDAG ?m = modelDAG m0" and sub: "set (frontier s) \<subseteq> set (keys (modelDAG m0))"
    and lay: "\<forall>k \<in> set (keys (modelDAG m0)). layerOk ?m k" by (simp_all add: weakInv_def)
  from sub fr have hk: "h \<in> set (keys (modelDAG m0))" by simp
  then obtain nd where nd: "map_of (modelDAG m0) h = Some nd" by (auto simp: keys_map_of)
  from nd dag have nd': "map_of (modelDAG ?m) h = Some nd" by simp
  from sub fr have rsub: "set rest \<subseteq> set (keys (modelDAG m0))" by simp
  show ?thesis
  proof (cases "layerClass nd = ''InputLayer''")
    case True
    have st: "step impl s = s\<lparr>frontier := outbound nd @ rest\<rparr>" by (rule step_input[OF fr nd' True])
    have bw: "sum_list (map (branchWeight ?m) (outbound nd)) = length (outbound nd)"
      using branchWeight_outbound[OF v nd] branchWeight_same[OF dag] by simp
    have "branchWeight ?m h = Suc (length (outbound nd))"
      using nd' True by (simp add: branchWeight_def)
    with bw fr have "remaining (s\<lparr>frontier := outbound nd @ rest\<rparr>) < remaining s"
      by (simp add: remaining_def)
    moreover have "weakInv m0 (s\<lparr>frontier := outbound nd @ rest\<rparr>)"
      using outbound_keys[OF v nd] rsub dag lay by (simp add: weakInv_def)
    ultimately show ?thesis using st by simp
  next
    case ni: False
    have bh: "branchWeight ?m h = 1" using nd' ni by (simp add: branchWeight_def)
    obtain vv m' where t: "traverseNode impl ?m h = (vv, m')" by (metis surj_pair)
    from traverseNode_nonInput[OF nd' ni, of impl] t have nodesc: "\<And>out. vv \<noteq> Descend out" by simp
    from traverseNode_model[OF t] consider
      (a) "m' = ?m\<lparr>tensorsCreated := tensorsCreated m', callLog := callLog m'\<rparr>" "\<forall>out. vv \<noteq> Computed out"
    | (b) nd2 cur res m1 where "map_of (modelDAG ?m) h = Some nd2" "map_of (modelLayersMap ?m) h = Some cur"
        "\<not> visited cur" "vv = Computed (outbound nd2)"
        "m1 = ?m\<lparr>tensorsCreated := tensorsCreated m1, callLog := callLog m1\<rparr>"
        "m' = storeResult h cur res m1" by blast
    then show ?thesis
    proof cases
      case a
      from a(1) obtain x y where m': "m' = ?m\<lparr>tensorsCreated := x, callLog := y\<rparr>" by blast
      from a(2) nodesc have vv: "vv = Skip \<or> vv = Throw" by (cases vv) auto
      have st: "step impl s = s\<lparr>mdl := m', frontier := rest\<rparr>
          \<or> step impl s = s\<lparr>mdl := m', frontier := rest, rejected := True\<rparr>"
        using vv fr t by (auto simp: step_def)
      have dag': "modelDAG m' = modelDAG ?m" by (simp add: m')
      have c: "computed m' = computed ?m" and lo: "layerOk m' = layerOk ?m"
        by (simp_all add: m' ghost_simps)
      have rem: "sum_list (map (branchWeight m') rest) + pendingEdges m' < remaining s"
        using fr bh branchWeight_same[OF dag'] pendingEdges_same[OF dag'] c
        by (simp add: remaining_def)
      have w: "modelDAG m' = modelDAG m0 \<and> (\<forall>k \<in> set (keys (modelDAG m0)). layerOk m' k)"
        using dag' dag lay lo by simp
      from st rem w rsub show ?thesis by (auto simp: weakInv_def remaining_def)
    next
      case b
      from b(1) nd' have nd2: "nd2 = nd" by simp
      from b(5) obtain x y where m1: "m1 = ?m\<lparr>tensorsCreated := x, callLog := y\<rparr>" by blast
      define fr' where "fr' = (if layerCallPauses m' then rest @ outbound nd else outbound nd @ rest)"
      have st: "step impl s = s\<lparr>mdl := m', frontier := fr'\<rparr>"
        using fr t b(4) nd2 by (simp add: step_def fr'_def)
      have dag': "modelDAG m' = modelDAG ?m" by (simp add: b(6) m1 storeResult_simps)
      have comp: "\<And>k. computed m' k = (k = h \<or> computed ?m k)"
        by (simp add: b(6) m1 computed_storeResult ghost_simps)
      have lo: "\<And>k. layerOk ?m k \<Longrightarrow> layerOk m' k"
        unfolding b(6) m1 by (rule layerOk_storeResult) (simp_all add: ghost_simps b(2))
      from lay hk have "layerOk ?m h" by blast
      with b(2,3) have nc: "\<not> computed ?m h" by (simp add: layerOk_def computed_def)
      have d: "distinct (keys (modelDAG ?m))" using v dag by (simp add: validDAG_def)
      have pe: "pendingEdges m' + length (outbound nd) = pendingEdges ?m"
        by (rule pendingEdges_compute[OF d nd' ni nc dag']) (simp add: comp)
      have bo: "sum_list (map (branchWeight ?m) (outbound nd)) = length (outbound nd)"
        using branchWeight_outbound[OF v nd] branchWeight_same[OF dag] by simp
      have "sum_list (map (branchWeight m') fr') = length (outbound nd) + sum_list (map (branchWeight ?m) rest)"
        using branchWeight_same[OF dag'] bo by (simp add: fr'_def)
      with pe bh fr have rem: "remaining (s\<lparr>mdl := m', frontier := fr'\<rparr>) < remaining s"
        by (simp add: remaining_def)
      have "set fr' = set (outbound nd) \<union> set rest" by (auto simp: fr'_def)
      with outbound_keys[OF v nd] rsub dag' dag lay lo
      have "weakInv m0 (s\<lparr>mdl := m', frontier := fr'\<rparr>)" by (simp add: weakInv_def)
      with rem st show ?thesis by simp
    qed
  qed
qed


lemma seedInputs_static:
  "seedInputs impl inputData names m = (r, m') \<Longrightarrow>
     modelClass m' = modelClass m \<and> modelDAG m' = modelDAG m \<and> isRunning m' = isRunning m
     \<and> layerCallPauses m' = layerCallPauses m \<and> keys (inputTensors m') = keys (inputTensors m)"
proof (induction names arbitrary: m)
  case Nil
  then show ?case by simp
next
  case (Cons n rest)
  show ?case
  proof (cases "map_of (inputTensors m) n")
    case None
    with Cons.prems show ?thesis by simp
  next
    case (Some t)
    note t = this
    then have nk: "n \<in> set (keys (inputTensors m))" by (simp add: keys_map_of)
    show ?thesis
    proof (cases "map_of inputData n")
      case None
      with Cons.prems t show ?thesis by simp
    next
      case (Some jv)
      show ?thesis
      proof (cases jv)
        case OtherValue
        with Cons.prems t Some show ?thesis by simp
      next
        case (Float32Array d)
        note d = Some[unfolded this]
        define m1 where "m1 = m\<lparr>inputTensors := AList.update n (replaceTensorData t d) (inputTensors m)\<rparr>"
        have m1s: "modelClass m1 = modelClass m" "modelDAG m1 = modelDAG m" "isRunning m1 = isRunning m"
          "layerCallPauses m1 = layerCallPauses m" "keys (inputTensors m1) = keys (inputTensors m)"
          "modelLayersMap m1 = modelLayersMap m"
          using keys_update[OF nk] by (simp_all add: m1_def)
        show ?thesis
        proof (cases "map_of (modelLayersMap m) n")
          case None
          with Cons.prems t d m1s show ?thesis by (auto simp: m1_def[symmetric] Let_def)
        next
          case (Some l)
          obtain r1 m2 where ic: "invokeCall impl l (Single (replaceTensorData t d)) m1 = (r1, m2)"
            by (metis surj_pair)
          from invokeCall_model[OF ic] have m2: "m2 = m1\<lparr>callLog := callLog m1 @ [lname l]\<rparr>" .
          show ?thesis
          proof (cases r1)
            case (Inl e)
            with Cons.prems t d Some ic m1s m2 show ?thesis
              by (auto simp: m1_def[symmetric] Let_def)
          next
            case (Inr res)
            with Cons.prems t d Some ic m1s
            have "seedInputs impl inputData rest
                   (m2\<lparr>modelLayersMap := AList.update n (l\<lparr>lresult := Some res, hasResult := True,
                      visited := True\<rparr>) (modelLayersMap m2)\<rparr>) = (r, m')"
              by (simp add: m1_def[symmetric] Let_def)
            from Cons.IH[OF this] m2 m1s show ?thesis by simp
          qed
        qed
      qed
    qed
  qed
qed



lemma predict_unfold:
  assumes "namesOk inputData m" "valuesOk inputData m" "seeded impl inputData m"
  shows "predict impl fuel inputData m =
     (case traverseDAG impl fuel (schedStart impl inputData m) of
        None \<Rightarrow> None
      | Some s \<Rightarrow> if rejected s then Some (Inl TraversalError, mdl s) else Some (outputs (mdl s)))"
proof -
  let ?names = "sort (keys (inputTensors m))"
  let ?mr = "resetLayers (m\<lparr>isRunning := True\<rparr>)"
  obtain m1 where seed: "seedInputs impl inputData ?names ?mr = (Inr (), m1)"
    using assms(3) unfolding seeded_def by (metis prod.collapse)
  have ln: "length (inputTensors m) = length ?names" by (simp add: keys_def)
  have start: "schedStart impl inputData m = \<lparr>mdl = m1, frontier = ?names, rejected = False\<rparr>"
    using seed by (simp add: schedStart_def seedState_def ln)
  have nk: "namesOk inputData (m\<lparr>isRunning := True\<rparr>)" "valuesOk inputData (m\<lparr>isRunning := True\<rparr>)"
    using assms(1,2) by (simp_all add: namesOk_def valuesOk_def)
  show ?thesis using nk seed by (simp add: predict_def Let_def start)
qed


lemma traverseDAG_iter:
  "traverseDAG impl fuel s = Some s' \<Longrightarrow> \<exists>n. s' = (step impl ^^ n) s \<and> frontier s' = []"
proof (induction fuel arbitrary: s)
  case 0
  then have "s' = (step impl ^^ 0) s \<and> frontier s' = []" by (auto split: if_splits)
  then show ?case by blast
next
  case (Suc fuel)
  show ?case
  proof (cases "frontier s = []")
    case True
    with Suc.prems have "s' = (step impl ^^ 0) s \<and> frontier s' = []" by simp
    then show ?thesis by blast
  next
    case False
    with Suc.prems have "traverseDAG impl fuel (step impl s) = Some s'" by simp
    from Suc.IH[OF this] obtain n where "s' = (step impl ^^ n) (step impl s)" "frontier s' = []" by blast
    then have "s' = (step impl ^^ Suc n) s \<and> frontier s' = []" by (simp add: funpow_swap1)
    then show ?thesis by blast
  qed
qed






section \<open>Input validation and outputs\<close>

lemma sort_eq_iff_set:
  fixes xs ys :: "string list"
  assumes "distinct xs" "distinct ys"
  shows "(sort xs = sort ys) = (set xs = set ys)"
proof
  assume "sort xs = sort ys"
  then have "set (sort xs) = set (sort ys)" by simp
  then show "set xs = set ys" by simp
next
  assume "set xs = set ys"
  with assms show "sort xs = sort ys"
    by (intro sorted_distinct_set_unique) simp_all
qed

lemma validDAG_isRunning: "validDAG (m\<lparr>isRunning := b\<rparr>) = validDAG m"
  by (simp add: validDAG_def nodeOk_def)

lemma collectOutputs_map_of:
  "collectOutputs m nds acc = Inr od \<Longrightarrow>
     map_of od name = (if name \<in> nname ` set nds then resultData m name else map_of acc name)"
proof (induction nds arbitrary: acc)
  case Nil
  then show ?case by simp
next
  case (Cons nd nds)
  then obtain d where d: "resultData m (nname nd) = Some d"
    and rec: "collectOutputs m nds (AList.update (nname nd) d acc) = Inr od"
    by (auto split: option.splits)
  from Cons.IH[OF rec] d show ?case by (auto simp: update_conv')
qed

lemma outputs_resultData:
  "outputs m = (r, m') \<Longrightarrow> resultData m' = resultData m"
  by (auto dest!: outputs_model simp: resultData_def fun_eq_iff)

lemma predict_Inr:
  assumes "predict impl fuel inputData m = Some (Inr out, m')"
  shows "\<exists>ms. outputs ms = (Inr out, m') \<and> modelDAG ms = modelDAG m
     \<and> modelClass ms = modelClass m"
proof -
  let ?m = "m\<lparr>isRunning := True\<rparr>"
  let ?names = "sort (keys (inputTensors ?m))"
  from assms have ok: "namesOk inputData ?m" "valuesOk inputData ?m"
    by (auto simp: predict_def Let_def split: if_splits)
  obtain r1 m1 where seed: "seedInputs impl inputData ?names (resetLayers ?m) = (r1, m1)"
    by (metis surj_pair)
  from assms ok seed obtain u where r1: "r1 = Inr u"
    by (cases r1) (auto simp: predict_def Let_def)
  from assms ok seed r1 obtain s where tr: "traverseDAG impl fuel \<lparr>mdl = m1, frontier = ?names, rejected = False\<rparr> = Some s"
    and res: "(if rejected s then Some (Inl TraversalError, mdl s) else Some (outputs (mdl s))) = Some (Inr out, m')"
    by (auto simp: predict_def Let_def split: option.splits)
  from res have o: "outputs (mdl s) = (Inr out, m')" by (auto split: if_splits)
  from seedInputs_static[OF seed] traverseDAG_static[OF tr]
  have "modelDAG (mdl s) = modelDAG m" "modelClass (mdl s) = modelClass m"
    by (simp_all add: resetLayers_simps)
  with o show ?thesis by blast
qed

section \<open>The two flags of a layer\<close>

lemma seedInputs_induct_prop:
  assumes base: "P m"
    and it: "\<And>m x. P m \<Longrightarrow> P (m\<lparr>inputTensors := x\<rparr>)"
    and cl: "\<And>m x. P m \<Longrightarrow> P (m\<lparr>callLog := x\<rparr>)"
    and lm: "\<And>m n l res. P m \<Longrightarrow> map_of (modelLayersMap m) n = Some l \<Longrightarrow>
        P (m\<lparr>modelLayersMap := AList.update n (l\<lparr>lresult := Some res, hasResult := True,
              visited := True\<rparr>) (modelLayersMap m)\<rparr>)"
  shows "P (snd (seedInputs impl inputData names m))"
  using base
proof (induction names arbitrary: m)
  case Nil
  then show ?case by simp
next
  case (Cons n rest)
  show ?case
  proof (cases "map_of (inputTensors m) n")
    case None
    with Cons.prems show ?thesis by simp
  next
    case (Some t)
    note t = this
    show ?thesis
    proof (cases "map_of inputData n")
      case None
      with Cons.prems t show ?thesis by simp
    next
      case (Some jv)
      show ?thesis
      proof (cases jv)
        case OtherValue
        with Cons.prems t Some show ?thesis by simp
      next
        case (Float32Array d)
        note d = Some[unfolded this]
        define m1 where "m1 = m\<lparr>inputTensors := AList.update n (replaceTensorData t d) (inputTensors m)\<rparr>"
        have p1: "P m1" unfolding m1_def by (rule it[OF Cons.prems])
        have m1l: "modelLayersMap m1 = modelLayersMap m" by (simp add: m1_def)
        show ?thesis
        proof (cases "map_of (modelLayersMap m) n")
          case None
          with t d p1 m1l show ?thesis by (simp add: m1_def[symmetric] Let_def)
        next
          case (Some l)
          obtain r1 m2 where ic: "invokeCall impl l (Single (replaceTensorData t d)) m1 = (r1, m2)"
            by (metis surj_pair)
          from invokeCall_model[OF ic] have m2: "m2 = m1\<lparr>callLog := callLog m1 @ [lname l]\<rparr>" .
          have p2: "P m2" unfolding m2 by (rule cl[OF p1])
          show ?thesis
          proof (cases r1)
            case (Inl e)
            with t d Some ic m1l p2 show ?thesis by (simp add: m1_def[symmetric] Let_def)
          next
            case (Inr res)
            define m3 where "m3 = m2\<lparr>modelLayersMap := AList.update n (l\<lparr>lresult := Some res, hasResult := True,
                      visited := True\<rparr>) (modelLayersMap m2)\<rparr>"
            have "map_of (modelLayersMap m2) n = Some l" using Some m2 m1l by simp
            from lm[OF p2 this] have p3: "P m3" by (simp add: m3_def)
            from Inr t d Some ic m1l
            have "seedInputs impl inputData (n # rest) m = seedInputs impl inputData rest m3"
              by (simp add: m1_def[symmetric] m3_def Let_def)
            with Cons.IH[OF p3] show ?thesis by simp
          qed
        qed
      qed
    qed
  qed
qed

lemma seedInputs_append:
  "seedInputs impl inputData (xs @ ys) m =
     (case seedInputs impl inputData xs m of
        (Inl e, m') \<Rightarrow> (Inl e, m')
      | (Inr u, m') \<Rightarrow> seedInputs impl inputData ys m')"
proof (induction xs arbitrary: m)
  case Nil
  then show ?case by simp
next
  case (Cons n xs)
  show ?case
    by (simp add: Cons.IH Let_def split: option.splits jsval.splits prod.splits sum.splits)
qed

lemma list_all_update:
  "list_all P al \<Longrightarrow> P (k, v) \<Longrightarrow> list_all P (AList.update k v al)"
  by (induction al) auto

lemma flagsAgree_reset: "flagsAgree (resetLayers m)"
  by (simp add: flagsAgree_def resetLayers_def list_all_iff split_beta)

lemma flagsAgree_seed:
  "flagsAgree m \<Longrightarrow> flagsAgree (snd (seedInputs impl inputData names m))"
  by (rule seedInputs_induct_prop) (simp_all add: flagsAgree_def list_all_update)

lemma flagsAgree_traverseNode:
  assumes "traverseNode impl m node = (v, m')" "flagsAgree m"
  shows "flagsAgree m'"
proof -
  from traverseNode_model[OF assms(1)] consider
    (a) "m' = m\<lparr>tensorsCreated := tensorsCreated m', callLog := callLog m'\<rparr>"
  | (b) cur res m1 where "m1 = m\<lparr>tensorsCreated := tensorsCreated m1, callLog := callLog m1\<rparr>"
      "m' = storeResult node cur res m1" by blast
  then show ?thesis
  proof cases
    case a
    obtain x y where "m' = m\<lparr>tensorsCreated := x, callLog := y\<rparr>" using a by blast
    with assms(2) show ?thesis by (simp add: flagsAgree_def)
  next
    case b
    obtain x y where "m1 = m\<lparr>tensorsCreated := x, callLog := y\<rparr>" using b(1) by blast
    with b(2) assms(2) show ?thesis by (simp add: flagsAgree_def storeResult_def list_all_update)
  qed
qed

lemma flagsAgree_step: "flagsAgree (mdl s) \<Longrightarrow> flagsAgree (mdl (step impl s))"
proof (cases "frontier s")
  case Nil
  then show "flagsAgree (mdl s) \<Longrightarrow> ?thesis" by (simp add: step_def)
next
  case (Cons h rest)
  obtain v m' where t: "traverseNode impl (mdl s) h = (v, m')" by (metis surj_pair)
  assume "flagsAgree (mdl s)"
  from flagsAgree_traverseNode[OF t this] Cons t show ?thesis
    by (cases v) (simp_all add: step_def)
qed

lemma flagsKept_refl: "flagsKept m m"
  by (simp add: flagsKept_def)

lemma wasVisited_storeResult:
  "wasVisited (storeResult h cur res m) k = (k = h \<or> wasVisited m k)"
  by (simp add: wasVisited_def storeResult_simps)

lemma flagsKept_traverseNode:
  assumes "traverseNode impl m node = (v, m')"
  shows "flagsKept m m'"
proof -
  from traverseNode_model[OF assms(1)] consider
    (a) "m' = m\<lparr>tensorsCreated := tensorsCreated m', callLog := callLog m'\<rparr>"
  | (b) cur res m1 where "m1 = m\<lparr>tensorsCreated := tensorsCreated m1, callLog := callLog m1\<rparr>"
      "m' = storeResult node cur res m1" by blast
  then show ?thesis
  proof cases
    case a
    obtain x y where "m' = m\<lparr>tensorsCreated := x, callLog := y\<rparr>" using a by blast
    then show ?thesis by (simp add: flagsKept_def computed_def wasVisited_def)
  next
    case b
    obtain x y where "m1 = m\<lparr>tensorsCreated := x, callLog := y\<rparr>" using b(1) by blast
    with b(2) show ?thesis
      by (simp add: flagsKept_def computed_storeResult wasVisited_storeResult ghost_simps)
         (simp add: wasVisited_def)
  qed
qed

lemma flagsKept_step: "flagsKept (mdl s) (mdl (step impl s))"
proof (cases "frontier s")
  case Nil
  then show ?thesis by (simp add: step_def flagsKept_refl)
next
  case (Cons h rest)
  obtain v m' where t: "traverseNode impl (mdl s) h = (v, m')" by (metis surj_pair)
  from flagsKept_traverseNode[OF t] Cons t show ?thesis
    by (cases v) (simp_all add: step_def)
qed

lemma flagsKept_seed: "flagsKept m (snd (seedInputs impl inputData names m))"
proof (rule seedInputs_induct_prop)
  show "flagsKept m m" by (rule flagsKept_refl)
next
  fix m1 :: "'a model" and x
  assume "flagsKept m m1"
  then show "flagsKept m (m1\<lparr>inputTensors := x\<rparr>)"
    by (simp add: flagsKept_def computed_def wasVisited_def)
next
  fix m1 :: "'a model" and x
  assume "flagsKept m m1"
  then show "flagsKept m (m1\<lparr>callLog := x\<rparr>)"
    by (simp add: flagsKept_def computed_def wasVisited_def)
next
  fix m1 :: "'a model" and n l res
  assume "flagsKept m m1"
  then show "flagsKept m (m1\<lparr>modelLayersMap := AList.update n (l\<lparr>lresult := Some res, hasResult := True,
              visited := True\<rparr>) (modelLayersMap m1)\<rparr>)"
    by (simp add: flagsKept_def computed_def wasVisited_def update_conv')
qed

lemma seedState_Suc:
  "seedState impl inputData m (Suc j) = seedState impl inputData m j
   \<or> seedState impl inputData m (Suc j)
       = snd (seedInputs impl inputData [sort (keys (inputTensors m)) ! j] (seedState impl inputData m j))"
proof (cases "j < length (sort (keys (inputTensors m)))")
  case True
  then have "take (Suc j) (sort (keys (inputTensors m)))
      = take j (sort (keys (inputTensors m))) @ [sort (keys (inputTensors m)) ! j]"
    by (rule take_Suc_conv_app_nth)
  then show ?thesis
    unfolding seedState_def
    by (simp only: seedInputs_append split: prod.splits sum.splits) auto
next
  case False
  then show ?thesis by (simp add: seedState_def)
qed

lemma flagsAgree_seedState: "flagsAgree (seedState impl inputData m j)"
  unfolding seedState_def by (rule flagsAgree_seed) (rule flagsAgree_reset)

lemma flagsKept_seedState: "flagsKept (seedState impl inputData m j) (seedState impl inputData m (Suc j))"
proof -
  from seedState_Suc[of impl inputData m j] consider
    (unchanged) "seedState impl inputData m (Suc j) = seedState impl inputData m j"
  | (seeded_one) "seedState impl inputData m (Suc j)
       = snd (seedInputs impl inputData [sort (keys (inputTensors m)) ! j] (seedState impl inputData m j))"
    by blast
  then show ?thesis
  proof cases
    case unchanged
    then show ?thesis by (simp only: flagsKept_refl)
  next
    case seeded_one
    show ?thesis unfolding seeded_one by (rule flagsKept_seed)
  qed
qed

lemma flagsAgree_schedAt: "flagsAgree (mdl (schedAt impl inputData m n))"
proof (induction n)
  case 0
  show ?case by (simp add: schedAt_def schedStart_def flagsAgree_seedState)
next
  case (Suc n)
  from flagsAgree_step[OF Suc] show ?case by (simp add: schedAt_def)
qed

lemma flagsKept_schedAt:
  "flagsKept (mdl (schedAt impl inputData m n)) (mdl (schedAt impl inputData m (Suc n)))"
  using flagsKept_step[of "schedAt impl inputData m n" impl] by (simp add: schedAt_def)

lemma flags_initially_clear:
  "\<not> computed (seedState impl inputData m 0) k \<and> \<not> wasVisited (seedState impl inputData m 0) k"
  by (simp add: seedState_def computed_def wasVisited_def map_of_resetLayers split: option.splits)

lemma predict_trace:
  assumes v: "validDAG m" and ok: "callsSucceed impl"
    and n: "namesOk inputData m" and vo: "valuesOk inputData m" and f: "fuelBound m \<le> fuel"
  shows "\<exists>N out m'. predict impl fuel inputData m = Some (Inr out, m')
     \<and> frontier (schedAt impl inputData m N) = []
     \<and> modelLayersMap m' = modelLayersMap (mdl (schedAt impl inputData m N))
     \<and> (\<forall>k \<in> set (keys (modelDAG m)). computed (mdl (schedAt impl inputData m N)) k
           \<and> wasVisited (mdl (schedAt impl inputData m N)) k)"
proof -
  let ?names = "sort (keys (inputTensors m))"
  from initial_schedInv[OF v ok vo] obtain m1 where
    seed: "seedInputs impl inputData ?names (resetLayers (m\<lparr>isRunning := True\<rparr>)) = (Inr (), m1)"
    and inv: "schedInv m \<lparr>mdl = m1, frontier = ?names, rejected = False\<rparr>"
    and rem: "remaining \<lparr>mdl = m1, frontier = ?names, rejected = False\<rparr> \<le> fuelBound m"
    by blast
  have ln: "length (inputTensors m) = length ?names" by (simp add: keys_def)
  have start: "schedStart impl inputData m = \<lparr>mdl = m1, frontier = ?names, rejected = False\<rparr>"
    using seed by (simp add: schedStart_def seedState_def ln)
  have sd: "seeded impl inputData m" using seed by (simp add: seeded_def)
  from rem f have "remaining (schedStart impl inputData m) \<le> fuel" by (simp add: start)
  from traverseDAG_terminates[OF v ok inv[folded start] this] obtain s where
    tr: "traverseDAG impl fuel (schedStart impl inputData m) = Some s"
    and invs: "schedInv m s" and fin: "frontier s = []" by blast
  from traverseDAG_iter[OF tr] obtain N where N: "s = schedAt impl inputData m N"
    by (auto simp: schedAt_def)
  note I = schedInvD[OF invs]
  from outputs_succeeds[OF v invs fin] obtain out where out: "fst (outputs (mdl s)) = Inr out" by blast
  define m' where "m' = snd (outputs (mdl s))"
  have o: "outputs (mdl s) = (Inr out, m')" using out by (simp add: m'_def prod_eq_iff)
  from outputs_model[OF o] have lay: "modelLayersMap m' = modelLayersMap (mdl s)" by auto
  have p: "predict impl fuel inputData m = Some (Inr out, m')"
    using predict_unfold[OF n vo sd, of fuel] tr I(2) o by simp
  have each: "computed (mdl s) k \<and> wasVisited (mdl s) k" if "k \<in> set (keys (modelDAG m))" for k
  proof -
    from that obtain nd where nd: "map_of (modelDAG m) k = Some nd" by (auto simp: keys_map_of)
    from finished_all_computed[OF v invs fin nd] have c: "computed (mdl s) k" .
    with I(4)[OF nd] show ?thesis
      by (auto simp: layerOk_def computed_def wasVisited_def split: option.splits)
  qed
  from p fin lay each N show ?thesis by blast
qed

section \<open>The sibling flag\<close>

lemma numSiblingNodes_sum: "numSiblingNodes ins = sum_list (map (\<lambda>nd. length (outbound nd)) ins)"
proof -
  have "foldl (\<lambda>num ob. num + length ob) a (map outbound ins)
      = a + sum_list (map (\<lambda>nd. length (outbound nd)) ins)" for a
    by (induction ins arbitrary: a) auto
  then show ?thesis by (simp add: numSiblingNodes_def)
qed

lemma copyBeforeCall_always:
  assumes v: "validDAG m" and k: "map_of (modelDAG m) k = Some nd"
    and ni: "layerClass nd \<noteq> ''InputLayer''"
    and ins: "lookupAll (modelDAG m) (inbound nd) = Some ins"
  shows "copyBeforeCall ins"
proof -
  from validDAG_node(4)[OF v k] ni obtain p ps where pps: "inbound nd = p # ps"
    by (cases "inbound nd") auto
  from validDAG_node(5)[OF v k] pps obtain pn where pn: "map_of (modelDAG m) p = Some pn"
    "k \<in> set (outbound pn)" by auto
  from ins pps pn(1) obtain rest where "ins = pn # rest"
    by (auto simp: lookupAll_def split: option.splits)
  moreover from pn(2) have "length (outbound pn) \<ge> 1" by (cases "outbound pn") auto
  ultimately show ?thesis by (simp add: copyBeforeCall_def numSiblingNodes_sum)
qed

section \<open>Loading, weights and graph construction\<close>

lemma find_filter: "find P xs = (case filter P xs of [] \<Rightarrow> None | x # _ \<Rightarrow> Some x)"
  by (induction xs) auto

lemma bindWeight_missing:
  assumes "weightRE regExp weightName = Some test"
  shows "(bindWeight regExp metadata byteLength layerName weightName = Inl MissingWeightError)
       = (filter (weightMatches test layerName) metadata = [])"
  using assms
  by (auto simp: bindWeight_def find_filter newFloat32Array_def split: list.splits)

lemma bindWeight_first:
  assumes "weightRE regExp weightName = Some test"
  shows "\<forall>pm others. filter (weightMatches test layerName) metadata = pm # others
          \<and> w_offset pm mod 4 = 0 \<and> w_offset pm + 4 * w_length pm \<le> byteLength \<longrightarrow>
        bindWeight regExp metadata byteLength layerName weightName
          = Inr \<lparr>wdata = \<lparr>byteOffset = w_offset pm, viewLength = w_length pm\<rparr>, wshape = w_shape pm\<rparr>"
  using assms
  by (auto simp: bindWeight_def find_filter newFloat32Array_def split: list.splits)

lemma bindWeight_refused:
  assumes "weightRE regExp weightName = None"
  shows "bindWeight regExp metadata byteLength layerName weightName
       = (if metadata = [] then Inl MissingWeightError else Inl SyntaxError)"
  using assms by (simp add: bindWeight_def)

lemma abortRequest_other: "map_of (abortRequest t rs) u = Some InFlight \<Longrightarrow> map_of rs u = Some InFlight"
  by (auto simp: abortRequest_def update_conv' split: option.splits request.splits if_splits)

lemma abortRequest_self: "map_of (abortRequest t rs) t \<noteq> Some InFlight"
  by (auto simp: abortRequest_def update_conv' split: option.splits request.splits)

lemma interruptTypes_keeps:
  "registered l \<Longrightarrow> settledFor l t \<Longrightarrow>
     registered (interruptTypes types l) \<and> settledFor (interruptTypes types l) t"
proof (induction types arbitrary: l)
  case Nil
  then show ?case by simp
next
  case (Cons u types)
  let ?l = "(if map_of (xhrs l) u = Some True
        then l\<lparr>requests := abortRequest u (requests l), xhrs := AList.update u False (xhrs l)\<rparr>
        else l)"
  have r: "registered ?l"
    using Cons.prems(1) abortRequest_self[of u "requests l"]
    by (auto simp: registered_def update_conv' dest: abortRequest_other)
  have s: "settledFor ?l t"
    using Cons.prems(2) by (auto simp: settledFor_def update_conv' dest: abortRequest_other)
  from Cons.IH[OF r s] show ?case by simp
qed

lemma interruptTypes_settles:
  "registered l \<Longrightarrow> t \<in> set types \<Longrightarrow> settledFor (interruptTypes types l) t"
proof (induction types arbitrary: l)
  case Nil
  then show ?case by simp
next
  case (Cons u types)
  let ?l = "(if map_of (xhrs l) u = Some True
        then l\<lparr>requests := abortRequest u (requests l), xhrs := AList.update u False (xhrs l)\<rparr>
        else l)"
  have r: "registered ?l"
    using Cons.prems(1) abortRequest_self[of u "requests l"]
    by (auto simp: registered_def update_conv' dest: abortRequest_other)
  show ?case
  proof (cases "t = u")
    case True
    have "settledFor ?l t"
      using Cons.prems(1) abortRequest_self[of u "requests l"] True
      by (auto simp: settledFor_def registered_def update_conv')
    from interruptTypes_keeps[OF r this] show ?thesis by simp
  next
    case False
    with Cons.prems(2) have "t \<in> set types" by simp
    from Cons.IH[OF r this] show ?thesis by simp
  qed
qed

lemma registered_sent: "registered (sent rs)"
proof -
  have "map_of (map (\<lambda>(type, r). (type, r \<noteq> Loaded)) rs) t = map_option (\<lambda>r. r \<noteq> Loaded) (map_of rs t)" for t
    by (induction rs) auto
  then show ?thesis by (auto simp: registered_def sent_def)
qed

lemma interrupt_misses_metadata:
  "map_of (requests (snd (initialize modelFetchFails None))) ''metadata'' = Some InFlight
   \<and> map_of (xhrs (snd (initialize modelFetchFails None))) ''metadata'' = Some True"
  by code_simp

lemma createInput_first:
  "createInput ''Sequential'' 0 ld m = Inr m' \<Longrightarrow> inputTensors m = []
    \<Longrightarrow> keys (inputTensors m') = [''input'']"
  by (auto simp: createInput_def keys_def split: option.splits)

lemma createInput_later:
  "createInput ''Sequential'' (Suc i) ld m = Inr m' \<Longrightarrow> m' = m"
  by (simp add: createInput_def)

lemma createLayer_inputTensors:
  assumes "createLayer regExp lm metadata byteLength cls config index ld m = Inr m'"
  shows "\<exists>m1. createInput cls index ld m = Inr m1 \<and> inputTensors m' = inputTensors m1"
proof -
  from assms obtain m1 where m1: "createInput cls index ld m = Inr m1"
    by (cases "createInput cls index ld m") (auto simp: createLayer_def split: if_splits)
  with assms have "inputTensors m' = inputTensors m1"
    by (auto simp: createLayer_def split: if_splits sum.splits option.splits)
  with m1 show ?thesis by blast
qed

lemma createLayersFrom_later:
  "createLayersFrom regExp lm metadata byteLength ''Sequential'' config (Suc i) lds m = Inr m'
    \<Longrightarrow> inputTensors m' = inputTensors m"
proof (induction lds arbitrary: i m)
  case Nil
  then show ?case by simp
next
  case (Cons ld lds)
  from Cons.prems obtain m2 where
    c: "createLayer regExp lm metadata byteLength ''Sequential'' config (Suc i) ld m = Inr m2"
    and r: "createLayersFrom regExp lm metadata byteLength ''Sequential'' config (Suc (Suc i)) lds m2 = Inr m'"
    by (auto split: sum.splits)
  from createLayer_inputTensors[OF c] createInput_later have "inputTensors m2 = inputTensors m"
    by fastforce
  with Cons.IH[OF r] show ?case by simp
qed

lemma sequential_inputTensors:
  assumes s: "mclass j = ''Sequential''" and ne: "mlayers j \<noteq> []"
    and c: "createLayers regExp lm j metadata byteLength (constructed pauses) = Inr m"
  shows "keys (inputTensors m) = [''input'']"
proof -
  from s ne obtain ld lds where cfg: "modelConfig j = ld # lds"
    by (cases "mlayers j") (auto simp: modelConfig_def)
  let ?m0 = "(constructed pauses :: 'a model)\<lparr>modelClass := mclass j\<rparr>"
  from c cfg s obtain m1 where
    f: "createLayer regExp lm metadata byteLength ''Sequential'' (ld # lds) 0 ld ?m0 = Inr m1"
    and r: "createLayersFrom regExp lm metadata byteLength ''Sequential'' (ld # lds) (Suc 0) lds m1 = Inr m"
    by (auto simp: createLayers_def split: sum.splits)
  from createLayer_inputTensors[OF f] obtain m0' where
    i: "createInput ''Sequential'' 0 ld ?m0 = Inr m0'" "inputTensors m1 = inputTensors m0'" by blast
  have "inputTensors ?m0 = []" by (simp add: constructed_def)
  from createInput_first[OF i(1) this] i(2) have "keys (inputTensors m1) = [''input'']"
    by (simp add: keys_def)
  with createLayersFrom_later[OF r] show ?thesis by (simp add: keys_def)
qed

section \<open>A call of \<^verbatim>\<open>predict\<close> does not depend on the calls before it\<close>

lemma layerSim_ready: "layerSim l l' \<Longrightarrow> hasResult l \<Longrightarrow> l' = l"
  by (cases l; cases l') (simp add: layerSim_def)

lemma layerSim_stale: "layerSim l l' \<Longrightarrow> l' = l\<lparr>lresult := lresult l'\<rparr> \<or> l' = l"
  by (cases l; cases l') (auto simp: layerSim_def)

lemma list_all2_layerSim_ready:
  "list_all2 layerSim ls ls' \<Longrightarrow> list_all hasResult ls \<Longrightarrow> ls' = ls"
  by (induction rule: list_all2_induct) (auto dest: layerSim_ready)

lemma list_all2_layerSim_hasResult:
  "list_all2 layerSim ls ls' \<Longrightarrow> list_all hasResult ls' = list_all hasResult ls"
  by (induction rule: list_all2_induct) (auto simp: layerSim_def)

lemma lookupAll_sim:
  assumes "\<forall>k. rel_option R (map_of A k) (map_of B k)"
  shows "rel_option (list_all2 R) (lookupAll A names) (lookupAll B names)"
  unfolding lookupAll_def
proof (induction names)
  case Nil
  then show ?case by simp
next
  case (Cons n names)
  from assms have "rel_option R (map_of A n) (map_of B n)" by blast
  with Cons show ?case
    by (cases "map_of A n"; cases "map_of B n";
        cases "those (map (map_of A) names)"; cases "those (map (map_of B) names)") auto
qed

lemma fst_invokeCall:
  "lname l' = lname l \<Longrightarrow> fst (invokeCall impl l' arg m') = fst (invokeCall impl l arg m)"
  by (simp add: invokeCall_def)

lemma fst_regularInput:
  "pipelineEnabled cur' = pipelineEnabled cur \<Longrightarrow>
     fst (regularInput impl cur' inb r c m') = fst (regularInput impl cur inb r c m)"
  by (simp add: regularInput_def)

lemma fst_regularLayerCall:
  assumes "lname cur' = lname cur" "pipelineEnabled cur' = pipelineEnabled cur"
  shows "fst (regularLayerCall impl cur' inb c m') = fst (regularLayerCall impl cur inb c m)"
proof (cases inb)
  case None
  then show ?thesis by (simp add: regularLayerCall_def)
next
  case (Some l)
  show ?thesis
  proof (cases "lresult l")
    case None
    with Some show ?thesis by (simp add: regularLayerCall_def)
  next
    case (Some r)
    obtain x m1 where a: "regularInput impl cur l r c m = (x, m1)" by (metis surj_pair)
    obtain x' m1' where b: "regularInput impl cur' l r c m' = (x', m1')" by (metis surj_pair)
    from fst_regularInput[OF assms(2), of impl l r c m' m] a b have "x' = x" by simp
    with a b Some \<open>inb = Some l\<close> fst_invokeCall[OF assms(1), of impl "Single x" m1' m1]
    show ?thesis by (simp add: regularLayerCall_def)
  qed
qed

lemma fst_hostInputs:
  "fst (hostInputs impl c ls m') = fst (hostInputs impl c ls m)"
proof (induction ls arbitrary: m m')
  case Nil
  then show ?case by simp
next
  case (Cons l ls)
  show ?case
  proof (cases "lresult l")
    case None
    then show ?thesis by simp
  next
    case (Some x)
    have IH1: "fst (hostInputs impl c ls m') = fst (hostInputs impl c ls m)" by (rule Cons.IH)
    have IH2: "fst (hostInputs impl c ls (m'\<lparr>tensorsCreated := Suc (tensorsCreated m')\<rparr>))
        = fst (hostInputs impl c ls (m\<lparr>tensorsCreated := Suc (tensorsCreated m)\<rparr>))" by (rule Cons.IH)
    show ?thesis
    proof (cases "fromPipeline x")
      case True
      with Some IH1 show ?thesis by (auto split: prod.splits sum.splits)
    next
      case False
      show ?thesis
      proof (cases c)
        case True
        with False Some IH2 show ?thesis by (auto split: prod.splits sum.splits)
      next
        case False
        with \<open>\<not> fromPipeline x\<close> Some IH1 show ?thesis by (auto split: prod.splits sum.splits)
      qed
    qed
  qed
qed

lemma fst_pipelineInputs:
  "fst (pipelineInputs xs m') = fst (pipelineInputs xs m)"
proof (induction xs arbitrary: m m')
  case Nil
  then show ?case by simp
next
  case (Cons x xs)
  show ?case
  proof (cases x)
    case None
    then show ?thesis by simp
  next
    case (Some t)
    from Cons.IH[of "m'\<lparr>tensorsCreated := Suc (tensorsCreated m')\<rparr>" "m\<lparr>tensorsCreated := Suc (tensorsCreated m)\<rparr>"]
    show ?thesis using Some by (auto split: prod.splits sum.splits)
  qed
qed

lemma fst_mergeInputs:
  "pipelineEnabled cur' = pipelineEnabled cur \<Longrightarrow>
     fst (mergeInputs impl cur' ls c m') = fst (mergeInputs impl cur ls c m)"
  using fst_hostInputs[of impl c ls m' m] fst_pipelineInputs[of "map lresult ls" m' m]
  by (auto simp: mergeInputs_def split: option.splits)

lemma fst_mergeLayerCall:
  assumes "lname cur' = lname cur" "pipelineEnabled cur' = pipelineEnabled cur"
  shows "fst (mergeLayerCall impl cur' ls c m') = fst (mergeLayerCall impl cur ls c m)"
proof -
  obtain r m1 where a: "mergeInputs impl cur ls c m = (r, m1)" by (metis surj_pair)
  obtain r' m1' where b: "mergeInputs impl cur' ls c m' = (r', m1')" by (metis surj_pair)
  from fst_mergeInputs[OF assms(2), of impl ls c m' m] a b have "r' = r" by simp
  with a b fst_invokeCall[OF assms(1)] show ?thesis
    by (cases r) (simp_all add: mergeLayerCall_def)
qed

lemma modelSim_ghost:
  "modelSim m m' \<Longrightarrow>
     modelSim (m\<lparr>tensorsCreated := a, callLog := b\<rparr>) (m'\<lparr>tensorsCreated := a', callLog := b'\<rparr>)"
  by (simp add: modelSim_def)

lemma modelSim_store:
  assumes "modelSim m m'" "lname cur' = lname cur" "pipelineEnabled cur' = pipelineEnabled cur"
  shows "modelSim (storeResult node cur res m) (storeResult node cur' res m')"
  using assms by (auto simp: modelSim_def storeResult_simps layerSim_def)

lemma sim_traverseNode:
  assumes sim: "modelSim m m'"
  shows "fst (traverseNode impl m' node) = fst (traverseNode impl m node)
     \<and> modelSim (snd (traverseNode impl m node)) (snd (traverseNode impl m' node))"
proof -
  from sim have dag: "modelDAG m' = modelDAG m"
    and lay: "\<forall>k. rel_option layerSim (map_of (modelLayersMap m) k) (map_of (modelLayersMap m') k)"
    by (simp_all add: modelSim_def)
  show ?thesis
  proof (cases "map_of (modelDAG m) node")
    case None
    with dag sim show ?thesis by (simp add: traverseNode_def)
  next
    case (Some nd)
    note nd = this
    from nd dag have nd': "map_of (modelDAG m') node = Some nd" by simp
    show ?thesis
    proof (cases "layerClass nd = ''InputLayer''")
      case True
      with nd nd' sim show ?thesis by (simp add: traverseNode_def)
    next
      case ni: False
      from lay have rl: "rel_option layerSim (map_of (modelLayersMap m) node) (map_of (modelLayersMap m') node)"
        by blast
      show ?thesis
      proof (cases "map_of (modelLayersMap m) node")
        case None
        with rl have "map_of (modelLayersMap m') node = None" by (cases "map_of (modelLayersMap m') node") auto
        with None nd nd' ni sim show ?thesis by (simp add: traverseNode_def)
      next
        case (Some cur)
        note cur = this
        with rl obtain cur' where cur': "map_of (modelLayersMap m') node = Some cur'"
          and ls: "layerSim cur cur'" by (cases "map_of (modelLayersMap m') node") auto
        from ls have lc: "lname cur' = lname cur" "pipelineEnabled cur' = pipelineEnabled cur"
          "visited cur' = visited cur" by (simp_all add: layerSim_def)
        show ?thesis
        proof (cases "visited cur")
          case True
          with nd nd' ni cur cur' lc sim show ?thesis by (simp add: traverseNode_def)
        next
          case nv: False
          with lc have nv': "\<not> visited cur'" by simp
          note ra = lookupAll_sim[OF lay, of "inbound nd"]
          show ?thesis
          proof (cases "lookupAll (modelLayersMap m) (inbound nd)")
            case None
            with ra have "lookupAll (modelLayersMap m') (inbound nd) = None"
              by (cases "lookupAll (modelLayersMap m') (inbound nd)") auto
            with None nd nd' ni cur cur' nv nv' sim show ?thesis by (simp add: traverseNode_def)
          next
            case (Some ils)
            note ils = this
            with ra obtain ils' where ils': "lookupAll (modelLayersMap m') (inbound nd) = Some ils'"
              and l2: "list_all2 layerSim ils ils'"
              by (cases "lookupAll (modelLayersMap m') (inbound nd)") auto
            note hr = list_all2_layerSim_hasResult[OF l2]
            show ?thesis
            proof (cases "list_all hasResult ils")
              case False
              with hr have "\<not> list_all hasResult ils'" by simp
              with False nd nd' ni cur cur' nv nv' ils ils' sim show ?thesis
                by (simp add: traverseNode_def)
            next
              case ready: True
              with hr have ready': "list_all hasResult ils'" by simp
              from list_all2_layerSim_ready[OF l2 ready] have same: "ils' = ils" .
              show ?thesis
              proof (cases "lookupAll (modelDAG m) (inbound nd)")
                case None
                with dag have "lookupAll (modelDAG m') (inbound nd) = None" by simp
                with None nd nd' ni cur cur' nv nv' ils ils' ready ready' sim show ?thesis
                  by (simp add: traverseNode_def)
              next
                case (Some ins)
                with dag have ins': "lookupAll (modelDAG m') (inbound nd) = Some ins" by simp
                let ?inb = "case ils of [] \<Rightarrow> None | l # _ \<Rightarrow> Some l"
                obtain r m1 where call:
                  "(if layerClass nd = ''Merge''
                    then mergeLayerCall impl cur ils (copyBeforeCall ins) m
                    else regularLayerCall impl cur ?inb (copyBeforeCall ins) m) = (r, m1)"
                  by (metis surj_pair)
                obtain r' m1' where call':
                  "(if layerClass nd = ''Merge''
                    then mergeLayerCall impl cur' ils (copyBeforeCall ins) m'
                    else regularLayerCall impl cur' ?inb (copyBeforeCall ins) m') = (r', m1')"
                  by (metis surj_pair)
                have "r' = r"
                proof (cases "layerClass nd = ''Merge''")
                  case True
                  with call call' fst_mergeLayerCall[OF lc(1,2), of impl ils "copyBeforeCall ins" m' m]
                  show ?thesis by simp
                next
                  case False
                  with call call' fst_regularLayerCall[OF lc(1,2), of impl ?inb "copyBeforeCall ins" m' m]
                  show ?thesis by simp
                qed
                from layerCalls_model[OF call] obtain a b where m1: "m1 = m\<lparr>tensorsCreated := a, callLog := b\<rparr>"
                  by blast
                from layerCalls_model[OF call'] obtain a' b' where m1': "m1' = m'\<lparr>tensorsCreated := a', callLog := b'\<rparr>"
                  by blast
                have s1: "modelSim m1 m1'" unfolding m1 m1' by (rule modelSim_ghost[OF sim])
                have t: "traverseNode impl m node = (case r of Inl e \<Rightarrow> (Throw, m1)
                           | Inr res \<Rightarrow> (Computed (outbound nd), storeResult node cur res m1))"
                  using nd ni cur nv ils ready Some call by (simp add: traverseNode_def)
                have t': "traverseNode impl m' node = (case r of Inl e \<Rightarrow> (Throw, m1')
                           | Inr res \<Rightarrow> (Computed (outbound nd), storeResult node cur' res m1'))"
                  using nd' ni cur' nv' ils' same ready ins' call' \<open>r' = r\<close>
                  by (simp add: traverseNode_def)
                show ?thesis
                proof (cases r)
                  case (Inl e)
                  with t t' s1 show ?thesis by simp
                next
                  case (Inr res)
                  with t t' modelSim_store[OF s1 lc(1,2)] show ?thesis by simp
                qed
              qed
            qed
          qed
        qed
      qed
    qed
  qed
qed

lemma modelSim_pauses: "modelSim m m' \<Longrightarrow> layerCallPauses m' = layerCallPauses m"
  by (simp add: modelSim_def)

lemma sim_step:
  assumes "schedSim s s'"
  shows "schedSim (step impl s) (step impl s')"
proof (cases "frontier s")
  case Nil
  with assms show ?thesis by (simp add: schedSim_def step_def)
next
  case (Cons h rest)
  with assms have fr': "frontier s' = h # rest" and rj: "rejected s' = rejected s"
    and sim: "modelSim (mdl s) (mdl s')" by (simp_all add: schedSim_def)
  obtain v n where t: "traverseNode impl (mdl s) h = (v, n)" by (metis surj_pair)
  obtain v' n' where t': "traverseNode impl (mdl s') h = (v', n')" by (metis surj_pair)
  from sim_traverseNode[OF sim, of impl h] t t' have vv: "v' = v" and ns: "modelSim n n'" by simp_all
  note lp = modelSim_pauses[OF ns]
  show ?thesis
    using Cons fr' rj t t' vv ns lp by (cases v) (simp_all add: step_def schedSim_def)
qed

lemma sim_traverseDAG:
  "schedSim s s' \<Longrightarrow> traverseDAG impl fuel s = Some t
    \<Longrightarrow> \<exists>t'. traverseDAG impl fuel s' = Some t' \<and> schedSim t t'"
proof (induction fuel arbitrary: s s')
  case 0
  then show ?case by (auto simp: schedSim_def split: if_splits)
next
  case (Suc fuel)
  show ?case
  proof (cases "frontier s = []")
    case True
    with Suc.prems show ?thesis by (auto simp: schedSim_def)
  next
    case False
    with Suc.prems(1) have "frontier s' \<noteq> []" by (simp add: schedSim_def)
    with False Suc.prems(2) Suc.IH[OF sim_step[OF Suc.prems(1)]] show ?thesis by simp
  qed
qed

lemma sameModel_refl: "sameModel m m"
  by (simp add: sameModel_def inputsSim_def tensorSim_def sameLayer_def option.rel_refl)

lemma sameModel_reset:
  assumes "sameModel m m'"
  shows "modelSim (resetLayers (m\<lparr>isRunning := True\<rparr>)) (resetLayers (m'\<lparr>isRunning := True\<rparr>))"
    and "inputsSim (resetLayers (m\<lparr>isRunning := True\<rparr>)) (resetLayers (m'\<lparr>isRunning := True\<rparr>))"
proof -
  from assms have l: "rel_option sameLayer (map_of (modelLayersMap m) k) (map_of (modelLayersMap m') k)" for k
    by (simp add: sameModel_def)
  have "rel_option layerSim
          (map_option (\<lambda>l. l\<lparr>hasResult := False, visited := False\<rparr>) (map_of (modelLayersMap m) k))
          (map_option (\<lambda>l. l\<lparr>hasResult := False, visited := False\<rparr>) (map_of (modelLayersMap m') k))" for k
    using l[of k]
    by (cases "map_of (modelLayersMap m) k"; cases "map_of (modelLayersMap m') k")
       (auto simp: layerSim_def sameLayer_def)
  with assms show "modelSim (resetLayers (m\<lparr>isRunning := True\<rparr>)) (resetLayers (m'\<lparr>isRunning := True\<rparr>))"
    by (simp add: modelSim_def sameModel_def resetLayers_simps map_of_resetLayers)
  from assms show "inputsSim (resetLayers (m\<lparr>isRunning := True\<rparr>)) (resetLayers (m'\<lparr>isRunning := True\<rparr>))"
    by (simp add: sameModel_def inputsSim_def resetLayers_simps)
qed

lemma tensorSim_replace:
  "tensorSim t t' \<Longrightarrow> replaceTensorData t' d = replaceTensorData t d"
  by (cases t; cases t') (simp add: tensorSim_def replaceTensorData_def)

lemma seed_sim:
  "modelSim m m' \<Longrightarrow> inputsSim m m' \<Longrightarrow>
     fst (seedInputs impl inputData names m') = fst (seedInputs impl inputData names m)
     \<and> modelSim (snd (seedInputs impl inputData names m)) (snd (seedInputs impl inputData names m'))"
proof (induction names arbitrary: m m')
  case Nil
  then show ?case by simp
next
  case (Cons n rest)
  note sim = Cons.prems(1) and isim = Cons.prems(2)
  from isim have kk: "keys (inputTensors m') = keys (inputTensors m)"
    and ti: "rel_option tensorSim (map_of (inputTensors m) k) (map_of (inputTensors m') k)" for k
    by (simp_all add: inputsSim_def)
  from sim have li: "rel_option layerSim (map_of (modelLayersMap m) k) (map_of (modelLayersMap m') k)" for k
    by (simp add: modelSim_def)
  show ?case
  proof (cases "map_of (inputTensors m) n")
    case None
    with ti[of n] have "map_of (inputTensors m') n = None"
      by (cases "map_of (inputTensors m') n") auto
    with None sim show ?thesis by simp
  next
    case (Some t)
    note t = this
    with ti[of n] obtain t' where t': "map_of (inputTensors m') n = Some t'" and ts: "tensorSim t t'"
      by (cases "map_of (inputTensors m') n") auto
    show ?thesis
    proof (cases "map_of inputData n")
      case None
      with t t' sim show ?thesis by simp
    next
      case (Some jv)
      show ?thesis
      proof (cases jv)
        case OtherValue
        with t t' Some sim show ?thesis by simp
      next
        case (Float32Array d)
        note d = Some[unfolded this]
        define tt where "tt = replaceTensorData t d"
        from tensorSim_replace[OF ts] have tt': "replaceTensorData t' d = tt" by (simp add: tt_def)
        define m1 where "m1 = m\<lparr>inputTensors := AList.update n tt (inputTensors m)\<rparr>"
        define m1' where "m1' = m'\<lparr>inputTensors := AList.update n tt (inputTensors m')\<rparr>"
        have s1: "modelSim m1 m1'" using sim by (simp add: modelSim_def m1_def m1'_def)
        have nk: "n \<in> set (keys (inputTensors m))" "n \<in> set (keys (inputTensors m'))"
          using t t' by (auto simp: keys_def dest: map_of_SomeD intro: rev_image_eqI)
        have i1: "inputsSim m1 m1'"
          using kk ti nk
          by (auto simp: inputsSim_def m1_def m1'_def keys_update update_conv' tensorSim_def)
        have l1: "modelLayersMap m1 = modelLayersMap m" "modelLayersMap m1' = modelLayersMap m'"
          by (simp_all add: m1_def m1'_def)
        show ?thesis
        proof (cases "map_of (modelLayersMap m) n")
          case None
          with li[of n] have "map_of (modelLayersMap m') n = None"
            by (cases "map_of (modelLayersMap m') n") auto
          with None t t' d tt' l1 s1 show ?thesis
            by (simp add: tt_def[symmetric] m1_def[symmetric] m1'_def[symmetric] Let_def)
        next
          case (Some l)
          with li[of n] obtain l' where l': "map_of (modelLayersMap m') n = Some l'" and ls: "layerSim l l'"
            by (cases "map_of (modelLayersMap m') n") auto
          from ls have lc: "lname l' = lname l" "pipelineEnabled l' = pipelineEnabled l"
            by (simp_all add: layerSim_def)
          obtain r m2 where ic: "invokeCall impl l (Single tt) m1 = (r, m2)" by (metis surj_pair)
          obtain r' m2' where ic': "invokeCall impl l' (Single tt) m1' = (r', m2')" by (metis surj_pair)
          from fst_invokeCall[OF lc(1), of impl "Single tt" m1' m1] ic ic' have rr: "r' = r" by simp
          from invokeCall_model[OF ic] have m2: "m2 = m1\<lparr>callLog := callLog m1 @ [lname l]\<rparr>" .
          from invokeCall_model[OF ic'] have m2': "m2' = m1'\<lparr>callLog := callLog m1' @ [lname l']\<rparr>" .
          have s2: "modelSim m2 m2'" using s1 by (simp add: m2 m2' modelSim_def)
          have i2: "inputsSim m2 m2'" using i1 by (simp add: m2 m2' inputsSim_def)
          show ?thesis
          proof (cases r)
            case (Inl e)
            with t t' d tt' Some l' l1 ic ic' rr s2 show ?thesis
              by (simp add: tt_def[symmetric] m1_def[symmetric] m1'_def[symmetric] Let_def)
          next
            case (Inr res)
            define m3 where "m3 = m2\<lparr>modelLayersMap := AList.update n (l\<lparr>lresult := Some res,
               hasResult := True, visited := True\<rparr>) (modelLayersMap m2)\<rparr>"
            define m3' where "m3' = m2'\<lparr>modelLayersMap := AList.update n (l'\<lparr>lresult := Some res,
               hasResult := True, visited := True\<rparr>) (modelLayersMap m2')\<rparr>"
            have s3: "modelSim m3 m3'"
              using s2 lc by (auto simp: modelSim_def m3_def m3'_def update_conv' layerSim_def)
            have i3: "inputsSim m3 m3'" using i2 by (simp add: m3_def m3'_def inputsSim_def)
            have e: "seedInputs impl inputData (n # rest) m = seedInputs impl inputData rest m3"
              using Inr t d Some ic l1
              by (simp add: tt_def[symmetric] m1_def[symmetric] m3_def Let_def)
            have e': "seedInputs impl inputData (n # rest) m' = seedInputs impl inputData rest m3'"
              using Inr t' d l' ic' l1 tt' rr
              by (simp add: m1'_def[symmetric] m3'_def Let_def)
            from Cons.IH[OF s3 i3] e e' show ?thesis by simp
          qed
        qed
      qed
    qed
  qed
qed

lemma sameModel_ghost:
  "sameModel m0 m \<Longrightarrow> sameModel m0 (m\<lparr>tensorsCreated := a, callLog := b\<rparr>)"
  by (simp add: sameModel_def inputsSim_def)

lemma sameModel_callLog: "sameModel m0 m \<Longrightarrow> sameModel m0 (m\<lparr>callLog := b\<rparr>)"
  by (simp add: sameModel_def inputsSim_def)

lemma sameModel_isRunning: "sameModel m0 m \<Longrightarrow> sameModel m0 (m\<lparr>isRunning := b\<rparr>)"
  by (simp add: sameModel_def inputsSim_def)

lemma sameModel_resetLayers:
  assumes "sameModel m0 m"
  shows "sameModel m0 (resetLayers m)"
proof -
  from assms have l: "rel_option sameLayer (map_of (modelLayersMap m0) k) (map_of (modelLayersMap m) k)" for k
    by (simp add: sameModel_def)
  have "rel_option sameLayer (map_of (modelLayersMap m0) k)
          (map_option (\<lambda>l. l\<lparr>hasResult := False, visited := False\<rparr>) (map_of (modelLayersMap m) k))" for k
    using l[of k]
    by (cases "map_of (modelLayersMap m0) k"; cases "map_of (modelLayersMap m) k")
       (auto simp: sameLayer_def)
  with assms show ?thesis
    by (simp add: sameModel_def inputsSim_def resetLayers_simps map_of_resetLayers)
qed

lemma sameModel_layer:
  assumes s: "sameModel m0 m" and c: "map_of (modelLayersMap m) n = Some cur"
  shows "sameModel m0 (m\<lparr>modelLayersMap := AList.update n
            (cur\<lparr>lresult := Some res, hasResult := True, visited := True\<rparr>) (modelLayersMap m)\<rparr>)"
proof -
  from s have l: "rel_option sameLayer (map_of (modelLayersMap m0) k) (map_of (modelLayersMap m) k)" for k
    by (simp add: sameModel_def)
  have "rel_option sameLayer (map_of (modelLayersMap m0) k)
          (((map_of (modelLayersMap m))(n \<mapsto> cur\<lparr>lresult := Some res, hasResult := True, visited := True\<rparr>)) k)" for k
  proof (cases "k = n")
    case True
    with l[of n] c show ?thesis
      by (cases "map_of (modelLayersMap m0) n") (auto simp: sameLayer_def)
  next
    case False
    with l[of k] show ?thesis by simp
  qed
  with s show ?thesis by (simp add: sameModel_def inputsSim_def update_conv')
qed

lemma sameModel_storeResult:
  assumes s: "sameModel m0 m" and c: "map_of (modelLayersMap m) n = Some cur"
  shows "sameModel m0 (storeResult n cur res m)"
proof -
  have "storeResult n cur res m
      = (m\<lparr>modelLayersMap := AList.update n
            (cur\<lparr>lresult := Some res, hasResult := True, visited := True\<rparr>) (modelLayersMap m)\<rparr>)
          \<lparr>layersWithResults := layersWithResults m @ [lname cur]\<rparr>"
    by (simp add: storeResult_def)
  moreover have "sameModel m0 (x\<lparr>layersWithResults := y\<rparr>)" if "sameModel m0 x" for x :: "'a model" and y
    using that by (simp add: sameModel_def inputsSim_def)
  ultimately show ?thesis using sameModel_layer[OF s c, of res] by simp
qed

lemma sameModel_input:
  assumes s: "sameModel m0 m" and t: "map_of (inputTensors m) n = Some t"
  shows "sameModel m0 (m\<lparr>inputTensors := AList.update n (replaceTensorData t d) (inputTensors m)\<rparr>)"
proof -
  from s have kk: "keys (inputTensors m) = keys (inputTensors m0)"
    and ti: "rel_option tensorSim (map_of (inputTensors m0) k) (map_of (inputTensors m) k)" for k
    by (simp_all add: sameModel_def inputsSim_def)
  from t have nk: "n \<in> set (keys (inputTensors m))"
    by (auto simp: keys_def dest: map_of_SomeD intro: rev_image_eqI)
  have "rel_option tensorSim (map_of (inputTensors m0) k)
          (((map_of (inputTensors m))(n \<mapsto> replaceTensorData t d)) k)" for k
  proof (cases "k = n")
    case True
    with ti[of n] t show ?thesis
      by (cases "map_of (inputTensors m0) n")
         (auto simp: tensorSim_def replaceTensorData_def)
  next
    case False
    with ti[of k] show ?thesis by simp
  qed
  with s kk nk show ?thesis
    by (simp add: sameModel_def inputsSim_def update_conv' keys_update)
qed

lemma sameModel_seed:
  "sameModel m0 m \<Longrightarrow> sameModel m0 (snd (seedInputs impl inputData names m))"
proof (induction names arbitrary: m)
  case Nil
  then show ?case by simp
next
  case (Cons n rest)
  show ?case
  proof (cases "map_of (inputTensors m) n")
    case None
    with Cons.prems show ?thesis by simp
  next
    case (Some t)
    note t = this
    show ?thesis
    proof (cases "map_of inputData n")
      case None
      with Cons.prems t show ?thesis by simp
    next
      case (Some jv)
      show ?thesis
      proof (cases jv)
        case OtherValue
        with Cons.prems t Some show ?thesis by simp
      next
        case (Float32Array d)
        note d = Some[unfolded this]
        define m1 where "m1 = m\<lparr>inputTensors := AList.update n (replaceTensorData t d) (inputTensors m)\<rparr>"
        have p1: "sameModel m0 m1" unfolding m1_def by (rule sameModel_input[OF Cons.prems t])
        have m1l: "modelLayersMap m1 = modelLayersMap m" by (simp add: m1_def)
        show ?thesis
        proof (cases "map_of (modelLayersMap m) n")
          case None
          with t d p1 m1l show ?thesis by (simp add: m1_def[symmetric] Let_def)
        next
          case (Some l)
          obtain r1 m2 where ic: "invokeCall impl l (Single (replaceTensorData t d)) m1 = (r1, m2)"
            by (metis surj_pair)
          from invokeCall_model[OF ic] have m2: "m2 = m1\<lparr>callLog := callLog m1 @ [lname l]\<rparr>" .
          have p2: "sameModel m0 m2" unfolding m2 by (rule sameModel_callLog[OF p1])
          show ?thesis
          proof (cases r1)
            case (Inl e)
            with t d Some ic m1l p2 show ?thesis by (simp add: m1_def[symmetric] Let_def)
          next
            case (Inr res)
            define m3 where "m3 = m2\<lparr>modelLayersMap := AList.update n (l\<lparr>lresult := Some res, hasResult := True,
                      visited := True\<rparr>) (modelLayersMap m2)\<rparr>"
            have "map_of (modelLayersMap m2) n = Some l" using Some m2 m1l by simp
            from sameModel_layer[OF p2 this] have p3: "sameModel m0 m3" by (simp add: m3_def)
            from Inr t d Some ic m1l
            have "seedInputs impl inputData (n # rest) m = seedInputs impl inputData rest m3"
              by (simp add: m1_def[symmetric] m3_def Let_def)
            with Cons.IH[OF p3] show ?thesis by simp
          qed
        qed
      qed
    qed
  qed
qed

lemma sameModel_traverseNode:
  assumes "traverseNode impl m node = (v, m')" "sameModel m0 m"
  shows "sameModel m0 m'"
proof -
  from traverseNode_model[OF assms(1)] consider
    (a) "m' = m\<lparr>tensorsCreated := tensorsCreated m', callLog := callLog m'\<rparr>"
  | (b) cur res m1 where "m1 = m\<lparr>tensorsCreated := tensorsCreated m1, callLog := callLog m1\<rparr>"
      "m' = storeResult node cur res m1" "map_of (modelLayersMap m) node = Some cur" by blast
  then show ?thesis
  proof cases
    case a
    obtain x y where "m' = m\<lparr>tensorsCreated := x, callLog := y\<rparr>" using a by blast
    with assms(2) show ?thesis by (simp add: sameModel_ghost)
  next
    case b
    obtain x y where m1: "m1 = m\<lparr>tensorsCreated := x, callLog := y\<rparr>" using b(1) by blast
    have s1: "sameModel m0 m1" unfolding m1 by (rule sameModel_ghost[OF assms(2)])
    have "map_of (modelLayersMap m1) node = Some cur" using b(3) by (simp add: m1)
    from sameModel_storeResult[OF s1 this] b(2) show ?thesis by simp
  qed
qed

lemma sameModel_step: "sameModel m0 (mdl s) \<Longrightarrow> sameModel m0 (mdl (step impl s))"
proof (cases "frontier s")
  case Nil
  then show "sameModel m0 (mdl s) \<Longrightarrow> ?thesis" by (simp add: step_def)
next
  case (Cons h rest)
  obtain v m' where t: "traverseNode impl (mdl s) h = (v, m')" by (metis surj_pair)
  assume "sameModel m0 (mdl s)"
  from sameModel_traverseNode[OF t this] Cons t show ?thesis
    by (cases v) (simp_all add: step_def)
qed

lemma sameModel_traverseDAG:
  "traverseDAG impl fuel s = Some s' \<Longrightarrow> sameModel m0 (mdl s) \<Longrightarrow> sameModel m0 (mdl s')"
proof (induction fuel arbitrary: s)
  case 0
  then show ?case by (auto split: if_splits)
next
  case (Suc fuel)
  show ?case
  proof (cases "frontier s = []")
    case True
    with Suc.prems show ?thesis by simp
  next
    case False
    with Suc.prems have "traverseDAG impl fuel (step impl s) = Some s'" by simp
    from Suc.IH[OF this sameModel_step[OF Suc.prems(2)]] show ?thesis .
  qed
qed

lemma sameModel_outputs: "sameModel m0 m \<Longrightarrow> sameModel m0 (snd (outputs m))"
proof -
  assume s: "sameModel m0 m"
  have "outputs m = (fst (outputs m), snd (outputs m))" by simp
  from outputs_model[OF this] s show ?thesis by (auto simp: sameModel_isRunning)
qed

lemma resultData_sim:
  assumes "modelSim m m'" "computed m k"
  shows "resultData m' k = resultData m k"
proof -
  from assms(2) obtain l where l: "map_of (modelLayersMap m) k = Some l" "hasResult l"
    by (auto simp: computed_def split: option.splits)
  from assms(1) have "rel_option layerSim (map_of (modelLayersMap m) k) (map_of (modelLayersMap m') k)"
    by (simp add: modelSim_def)
  with l(1) obtain l' where l': "map_of (modelLayersMap m') k = Some l'" "layerSim l l'"
    by (cases "map_of (modelLayersMap m') k") auto
  from layerSim_ready[OF l'(2) l(2)] l(1) l'(1) show ?thesis by (simp add: resultData_def)
qed

lemma collectOutputs_cong:
  "\<forall>nd \<in> set nds. resultData m' (nname nd) = resultData m (nname nd) \<Longrightarrow>
     collectOutputs m' nds acc = collectOutputs m nds acc"
  by (induction nds arbitrary: acc) (auto split: option.splits)

lemma outputs_sim:
  assumes sim: "modelSim m m'"
    and c: "\<forall>nd \<in> set (map snd (modelDAG m)). computed m (nname nd)"
  shows "fst (outputs m') = fst (outputs m)"
proof -
  from sim have st: "modelClass m' = modelClass m" "modelDAG m' = modelDAG m"
    by (simp_all add: modelSim_def)
  have rd: "resultData m' (nname nd) = resultData m (nname nd)" if "nd \<in> set (map snd (modelDAG m))" for nd
    using resultData_sim[OF sim] c that by blast
  show ?thesis
  proof (cases "modelClass m = ''Sequential''")
    case True
    show ?thesis
    proof (cases "find (\<lambda>nd. outbound nd = []) (map snd (modelDAG m))")
      case None
      with True st show ?thesis by (simp add: outputs_def)
    next
      case (Some nd)
      then have "nd \<in> set (map snd (modelDAG m))" by (auto simp: find_Some_iff)
      from rd[OF this] True st Some show ?thesis
        by (simp add: outputs_def split: option.splits)
    qed
  next
    case ns: False
    show ?thesis
    proof (cases "modelClass m = ''Model''")
      case True
      have "\<forall>nd \<in> set (filter (\<lambda>nd. outbound nd = []) (map snd (modelDAG m))).
              resultData m' (nname nd) = resultData m (nname nd)"
        using rd by auto
      then have "collectOutputs m' (filter (\<lambda>nd. outbound nd = []) (map snd (modelDAG m))) []
          = collectOutputs m (filter (\<lambda>nd. outbound nd = []) (map snd (modelDAG m))) []"
        by (rule collectOutputs_cong)
      with True ns st show ?thesis by (simp add: outputs_def split: sum.splits)
    next
      case False
      with ns st show ?thesis by (simp add: outputs_def)
    qed
  qed
qed

lemma predict_history:
  assumes v: "validDAG m" and ok: "callsSucceed impl"
    and n: "namesOk inputData m" and vo: "valuesOk inputData m" and f: "fuelBound m \<le> fuel"
    and h: "sameModel m m'"
  shows "\<exists>out m1 m1'. predict impl fuel inputData m = Some (Inr out, m1)
     \<and> predict impl fuel inputData m' = Some (Inr out, m1') \<and> sameModel m m1"
proof -
  let ?names = "sort (keys (inputTensors m))"
  let ?mr = "resetLayers (m\<lparr>isRunning := True\<rparr>)"
  let ?mr' = "resetLayers (m'\<lparr>isRunning := True\<rparr>)"
  from h have kk: "keys (inputTensors m') = keys (inputTensors m)"
    by (simp add: sameModel_def inputsSim_def)
  from initial_schedInv[OF v ok vo] obtain ms where
    seed: "seedInputs impl inputData ?names ?mr = (Inr (), ms)"
    and inv: "schedInv m \<lparr>mdl = ms, frontier = ?names, rejected = False\<rparr>"
    and rem: "remaining \<lparr>mdl = ms, frontier = ?names, rejected = False\<rparr> \<le> fuelBound m"
    by blast
  from rem f have "remaining \<lparr>mdl = ms, frontier = ?names, rejected = False\<rparr> \<le> fuel" by simp
  from traverseDAG_terminates[OF v ok inv this] obtain s where
    tr: "traverseDAG impl fuel \<lparr>mdl = ms, frontier = ?names, rejected = False\<rparr> = Some s"
    and invs: "schedInv m s" and fin: "frontier s = []" by blast
  from outputs_succeeds[OF v invs fin] obtain out where out: "fst (outputs (mdl s)) = Inr out" by blast
  note I = schedInvD[OF invs]
  have nk: "namesOk inputData (m\<lparr>isRunning := True\<rparr>)" "valuesOk inputData (m\<lparr>isRunning := True\<rparr>)"
    using n vo by (simp_all add: namesOk_def valuesOk_def)
  have nk': "namesOk inputData (m'\<lparr>isRunning := True\<rparr>)" "valuesOk inputData (m'\<lparr>isRunning := True\<rparr>)"
    using n vo kk by (simp_all add: namesOk_def valuesOk_def)
  have p: "predict impl fuel inputData m = Some (outputs (mdl s))"
    using nk seed tr I(2) by (simp add: predict_def Let_def)
  have "sameModel m ?mr"
    by (intro sameModel_resetLayers sameModel_isRunning sameModel_refl)
  from sameModel_seed[OF this, of impl inputData ?names] seed have "sameModel m ms" by simp
  with sameModel_traverseDAG[OF tr] have "sameModel m (mdl s)" by simp
  then have fr: "sameModel m (snd (outputs (mdl s)))" by (rule sameModel_outputs)
  from seed_sim[OF sameModel_reset[OF h], of impl inputData ?names] seed
  obtain ms' where seed': "seedInputs impl inputData ?names ?mr' = (Inr (), ms')"
    and sims: "modelSim ms ms'"
    by (cases "seedInputs impl inputData ?names ?mr'") auto
  have "schedSim \<lparr>mdl = ms, frontier = ?names, rejected = False\<rparr>
                 \<lparr>mdl = ms', frontier = ?names, rejected = False\<rparr>"
    using sims by (simp add: schedSim_def)
  from sim_traverseDAG[OF this tr] obtain s' where
    tr': "traverseDAG impl fuel \<lparr>mdl = ms', frontier = ?names, rejected = False\<rparr> = Some s'"
    and ss: "schedSim s s'" by blast
  from ss I(2) have nr': "\<not> rejected s'" and simf: "modelSim (mdl s) (mdl s')"
    by (simp_all add: schedSim_def)
  have p': "predict impl fuel inputData m' = Some (outputs (mdl s'))"
    using nk' seed' tr' nr' kk by (simp add: predict_def Let_def)
  from v have d: "distinct (keys (modelDAG m))" by (simp add: validDAG_def)
  have "\<forall>nd \<in> set (map snd (modelDAG (mdl s))). computed (mdl s) (nname nd)"
  proof
    fix nd assume "nd \<in> set (map snd (modelDAG (mdl s)))"
    with I(1) obtain k where "(k, nd) \<in> set (modelDAG m)" by auto
    from map_of_distinct_keys[OF d this] have k: "map_of (modelDAG m) k = Some nd" .
    from finished_all_computed[OF v invs fin k] validDAG_node(1)[OF v k]
    show "computed (mdl s) (nname nd)" by simp
  qed
  from outputs_sim[OF simf this] out have out': "fst (outputs (mdl s')) = Inr out" by simp
  from p out have "predict impl fuel inputData m = Some (Inr out, snd (outputs (mdl s)))"
    by (metis prod.collapse)
  moreover from p' out' have "predict impl fuel inputData m' = Some (Inr out, snd (outputs (mdl s')))"
    by (metis prod.collapse)
  ultimately show ?thesis using fr by blast
qed

section \<open>The result of a layer is the result of its call\<close>

lemma layerInput_cong:
  assumes "pipelineEnabled cur' = pipelineEnabled cur"
  shows "layerInput impl cls cur' ils c m' = layerInput impl cls cur ils c m"
  using fst_mergeInputs[OF assms, of impl ils c m' m] fst_regularInput[OF assms, of impl _ _ c m' m]
  by (simp add: layerInput_def split: list.splits option.splits)

lemma layerCall_of_call:
  assumes "(if cls = ''Merge'' then mergeLayerCall impl cur ils c m
            else regularLayerCall impl cur (case ils of [] \<Rightarrow> None | l # _ \<Rightarrow> Some l) c m)
           = (Inr res, m1)"
  shows "\<exists>arg. layerInput impl cls cur ils c m = Some arg \<and> layerCall impl (lname cur) arg = Some res"
proof (cases "cls = ''Merge''")
  case True
  obtain r m2 where mi: "mergeInputs impl cur ils c m = (r, m2)" by (metis surj_pair)
  with True assms obtain xs where r: "r = Inr xs" and ic: "invokeCall impl cur (Multi xs) m2 = (Inr res, m1)"
    by (cases r) (auto simp: mergeLayerCall_def)
  from ic have "layerCall impl (lname cur) (Multi xs) = Some res"
    by (auto simp: invokeCall_def split: option.splits)
  with True mi r show ?thesis by (simp add: layerInput_def)
next
  case False
  with assms have rc: "regularLayerCall impl cur (case ils of [] \<Rightarrow> None | l # _ \<Rightarrow> Some l) c m = (Inr res, m1)"
    by simp
  then obtain inb rest where ils: "ils = inb # rest"
    by (cases ils) (auto simp: regularLayerCall_def)
  with rc obtain r where r: "lresult inb = Some r"
    by (cases "lresult inb") (auto simp: regularLayerCall_def)
  obtain x m2 where ri: "regularInput impl cur inb r c m = (x, m2)" by (metis surj_pair)
  with rc ils r have ic: "invokeCall impl cur (Single x) m2 = (Inr res, m1)"
    by (simp add: regularLayerCall_def)
  then have "layerCall impl (lname cur) (Single x) = Some res"
    by (auto simp: invokeCall_def split: option.splits)
  with False ils r ri show ?thesis by (simp add: layerInput_def)
qed

lemma lookupAll_update:
  "node \<notin> set names \<Longrightarrow> lookupAll (AList.update node v table) names = lookupAll table names"
proof -
  assume "node \<notin> set names"
  then have "map (map_of (AList.update node v table)) names = map (map_of table) names"
    by (intro map_cong refl) (auto simp: update_conv')
  then show ?thesis unfolding lookupAll_def by (rule arg_cong)
qed

lemma lookupAll_computed:
  "lookupAll (modelLayersMap m) ps = Some ils \<Longrightarrow> list_all hasResult ils
    \<Longrightarrow> \<forall>p \<in> set ps. computed m p"
  unfolding lookupAll_def
  by (induction ps arbitrary: ils) (auto simp: computed_def split: option.splits)

lemma callArgument_ghost:
  "callArgument impl (m\<lparr>tensorsCreated := a, callLog := b\<rparr>) k nd = callArgument impl m k nd"
  using layerInput_cong[OF refl, of impl "layerClass nd" _ _ _ "m\<lparr>tensorsCreated := a, callLog := b\<rparr>" m]
  by (simp add: callArgument_def split: option.splits)

lemma callArgument_isRunning:
  "callArgument impl (m\<lparr>isRunning := b\<rparr>) k nd = callArgument impl m k nd"
  using layerInput_cong[OF refl, of impl "layerClass nd" _ _ _ "m\<lparr>isRunning := b\<rparr>" m]
  by (simp add: callArgument_def split: option.splits)

lemma callArgument_storeResult:
  assumes ni: "node \<notin> set (inbound nd)"
    and cur: "k = node \<Longrightarrow> map_of (modelLayersMap m) node = Some cur"
  shows "callArgument impl (storeResult node cur res m) k nd = callArgument impl m k nd"
proof (cases "layerClass nd = ''InputLayer''")
  case True
  then show ?thesis by (simp add: callArgument_def storeResult_simps)
next
  case False
  let ?m' = "storeResult node cur res m"
  let ?cur' = "cur\<lparr>lresult := Some res, hasResult := True, visited := True\<rparr>"
  have lm: "modelLayersMap ?m' = AList.update node ?cur' (modelLayersMap m)"
    by (simp add: storeResult_def)
  have la: "lookupAll (modelLayersMap ?m') (inbound nd) = lookupAll (modelLayersMap m) (inbound nd)"
    unfolding lm by (rule lookupAll_update[OF ni])
  have li: "layerInput impl cls c1 ils c ?m' = layerInput impl cls c1 ils c m" for cls c1 ils c
    by (rule layerInput_cong) simp
  show ?thesis
  proof (cases "k = node")
    case True
    have "layerInput impl cls ?cur' ils c ?m' = layerInput impl cls cur ils c m" for cls ils c
      by (rule layerInput_cong) simp
    with True False cur la show ?thesis
      by (simp add: callArgument_def storeResult_simps split: option.splits)
  next
    case kn: False
    with False la li show ?thesis
      by (simp add: callArgument_def storeResult_simps split: option.splits)
  qed
qed

lemma resultsInv_ghost:
  "resultsInv impl m \<Longrightarrow> resultsInv impl (m\<lparr>tensorsCreated := a, callLog := b\<rparr>)"
  by (simp add: resultsInv_def callArgument_ghost ghost_simps)

lemma resultsInv_isRunning:
  "resultsInv impl m \<Longrightarrow> resultsInv impl (m\<lparr>isRunning := b\<rparr>)"
  by (simp add: resultsInv_def callArgument_isRunning computed_def)

lemma traverseNode_ComputedD:
  assumes t: "traverseNode impl m node = (Computed out, m')"
  shows "\<exists>nd cur ils ins res m1.
     map_of (modelDAG m) node = Some nd \<and> layerClass nd \<noteq> ''InputLayer''
     \<and> map_of (modelLayersMap m) node = Some cur \<and> \<not> visited cur
     \<and> lookupAll (modelLayersMap m) (inbound nd) = Some ils \<and> list_all hasResult ils
     \<and> lookupAll (modelDAG m) (inbound nd) = Some ins
     \<and> (if layerClass nd = ''Merge''
          then mergeLayerCall impl cur ils (copyBeforeCall ins) m
          else regularLayerCall impl cur (case ils of [] \<Rightarrow> None | l # _ \<Rightarrow> Some l)
                 (copyBeforeCall ins) m) = (Inr res, m1)
     \<and> m' = storeResult node cur res m1"
proof (cases "map_of (modelDAG m) node")
  case None
  with t show ?thesis by (simp add: traverseNode_def)
next
  case (Some nd)
  note nd = this
  show ?thesis
  proof (cases "layerClass nd = ''InputLayer''")
    case True
    with t nd show ?thesis by (simp add: traverseNode_def)
  next
    case ni: False
    show ?thesis
    proof (cases "map_of (modelLayersMap m) node")
      case None
      with t nd ni show ?thesis by (simp add: traverseNode_def)
    next
      case (Some cur)
      note cur = this
      show ?thesis
      proof (cases "visited cur")
        case True
        with t nd ni cur show ?thesis by (simp add: traverseNode_def)
      next
        case nv: False
        show ?thesis
        proof (cases "lookupAll (modelLayersMap m) (inbound nd)")
          case None
          with t nd ni cur nv show ?thesis by (simp add: traverseNode_def)
        next
          case (Some ils)
          note ils = this
          show ?thesis
          proof (cases "list_all hasResult ils")
            case False
            with t nd ni cur nv ils show ?thesis by (simp add: traverseNode_def)
          next
            case ready: True
            show ?thesis
            proof (cases "lookupAll (modelDAG m) (inbound nd)")
              case None
              with t nd ni cur nv ils ready show ?thesis by (simp add: traverseNode_def)
            next
              case (Some ins)
              obtain r m1 where call:
                "(if layerClass nd = ''Merge''
                  then mergeLayerCall impl cur ils (copyBeforeCall ins) m
                  else regularLayerCall impl cur (case ils of [] \<Rightarrow> None | l # _ \<Rightarrow> Some l)
                         (copyBeforeCall ins) m) = (r, m1)"
                by (metis surj_pair)
              from t nd ni cur nv ils ready Some call
              have e: "(Computed out, m') = (case r of Inl e \<Rightarrow> (Throw, m1)
                           | Inr res \<Rightarrow> (Computed (outbound nd), storeResult node cur res m1))"
                by (simp add: traverseNode_def)
              then obtain res where r: "r = Inr res" and m': "m' = storeResult node cur res m1"
                by (cases r) auto
              from nd ni cur nv ils ready Some call[unfolded r] m' show ?thesis by blast
            qed
          qed
        qed
      qed
    qed
  qed
qed

lemma resultsInv_traverseNode:
  assumes t: "traverseNode impl m node = (v, m')" and inv: "resultsInv impl m"
    and lo: "layerOk m node"
  shows "resultsInv impl m'"
proof (cases "\<exists>out. v = Computed out")
  case False
  with traverseNode_model[OF t] have "m' = m\<lparr>tensorsCreated := tensorsCreated m', callLog := callLog m'\<rparr>"
    by blast
  then obtain a b where "m' = m\<lparr>tensorsCreated := a, callLog := b\<rparr>" by blast
  with inv show ?thesis by (simp add: resultsInv_ghost)
next
  case True
  then obtain out where v: "v = Computed out" by blast
  from traverseNode_ComputedD[OF t[unfolded v]] obtain nd cur ils ins res m1 where
    nd: "map_of (modelDAG m) node = Some nd" and ni: "layerClass nd \<noteq> ''InputLayer''"
    and cur: "map_of (modelLayersMap m) node = Some cur" and nv: "\<not> visited cur"
    and ils: "lookupAll (modelLayersMap m) (inbound nd) = Some ils" and ready: "list_all hasResult ils"
    and ins: "lookupAll (modelDAG m) (inbound nd) = Some ins"
    and call: "(if layerClass nd = ''Merge''
          then mergeLayerCall impl cur ils (copyBeforeCall ins) m
          else regularLayerCall impl cur (case ils of [] \<Rightarrow> None | l # _ \<Rightarrow> Some l)
                 (copyBeforeCall ins) m) = (Inr res, m1)"
    and m': "m' = storeResult node cur res m1" by blast
  from layerCalls_model[OF call] obtain a b where m1: "m1 = m\<lparr>tensorsCreated := a, callLog := b\<rparr>"
    by blast
  from lo cur nv have ln: "lname cur = node" and nc: "\<not> computed m node"
    by (simp_all add: layerOk_def computed_def)
  from lookupAll_computed[OF ils ready] have inb: "\<forall>p \<in> set (inbound nd). computed m p" .
  with nc have nin: "node \<notin> set (inbound nd)" by blast
  from layerCall_of_call[OF call] obtain arg where
    arg: "layerInput impl (layerClass nd) cur ils (copyBeforeCall ins) m = Some arg"
    and lc: "layerCall impl node arg = Some res" by (auto simp: ln)
  have ca: "callArgument impl m node nd = Some arg"
    using ni cur ils ins arg by (simp add: callArgument_def)
  have cur1: "map_of (modelLayersMap m1) node = Some cur" using cur by (simp add: m1)
  have comp: "computed m' p = (p = node \<or> computed m p)" for p
    by (simp add: m' m1 computed_storeResult ghost_simps)
  have dag: "modelDAG m' = modelDAG m" by (simp add: m' m1 storeResult_simps)
  show ?thesis
    unfolding resultsInv_def
  proof (intro allI impI)
    fix k ndk l
    assume h: "map_of (modelDAG m') k = Some ndk \<and> map_of (modelLayersMap m') k = Some l \<and> hasResult l"
    then have ndk: "map_of (modelDAG m) k = Some ndk" and l: "map_of (modelLayersMap m') k = Some l"
      and hr: "hasResult l" by (simp_all add: dag)
    show "(\<exists>arg. callArgument impl m' k ndk = Some arg \<and> lresult l = layerCall impl k arg
             \<and> lresult l \<noteq> None)
          \<and> (\<forall>p \<in> set (inbound ndk). computed m' p)"
    proof (cases "k = node")
      case True
      with ndk nd have same: "ndk = nd" by simp
      from l True have lr: "lresult l = Some res" by (auto simp: m' storeResult_simps)
      have "callArgument impl m' node nd = callArgument impl m1 node nd"
        unfolding m' by (rule callArgument_storeResult[OF nin cur1])
      also have "\<dots> = Some arg" using ca by (simp add: m1 callArgument_ghost)
      finally have "callArgument impl m' node nd = Some arg" .
      with True same lr lc inb comp show ?thesis by simp
    next
      case False
      with l have lm: "map_of (modelLayersMap m) k = Some l" by (simp add: m' m1 storeResult_simps)
      from inv ndk lm hr obtain argk where
        ak: "callArgument impl m k ndk = Some argk" "lresult l = layerCall impl k argk" "lresult l \<noteq> None"
        and ik: "\<forall>p \<in> set (inbound ndk). computed m p"
        unfolding resultsInv_def by blast
      from ik nc have nk: "node \<notin> set (inbound ndk)" by blast
      have "callArgument impl m' k ndk = callArgument impl m1 k ndk"
        unfolding m' by (rule callArgument_storeResult[OF nk]) (simp add: False)
      also have "\<dots> = Some argk" using ak(1) by (simp add: m1 callArgument_ghost)
      finally have "callArgument impl m' k ndk = Some argk" .
      with ak ik comp show ?thesis by simp
    qed
  qed
qed

lemma resultsInv_step:
  assumes w: "weakInv m0 s" and inv: "resultsInv impl (mdl s)"
  shows "resultsInv impl (mdl (step impl s))"
proof (cases "frontier s")
  case Nil
  with inv show ?thesis by (simp add: step_def)
next
  case (Cons h rest)
  obtain v m' where t: "traverseNode impl (mdl s) h = (v, m')" by (metis surj_pair)
  from w Cons have "layerOk (mdl s) h" by (simp add: weakInv_def)
  from resultsInv_traverseNode[OF t inv this] Cons t show ?thesis
    by (cases v) (simp_all add: step_def)
qed

lemma traverseDAG_results:
  assumes v: "validDAG m0"
  shows "weakInv m0 s \<Longrightarrow> resultsInv impl (mdl s) \<Longrightarrow> traverseDAG impl fuel s = Some s'
    \<Longrightarrow> resultsInv impl (mdl s')"
proof (induction fuel arbitrary: s)
  case 0
  then show ?case by (auto split: if_splits)
next
  case (Suc fuel)
  show ?case
  proof (cases "frontier s")
    case Nil
    with Suc.prems show ?thesis by simp
  next
    case (Cons h rest)
    with Suc.prems have tr: "traverseDAG impl fuel (step impl s) = Some s'" by simp
    from weak_step[OF v Suc.prems(1) Cons, of impl] have w: "weakInv m0 (step impl s)" by simp
    from Suc.IH[OF w resultsInv_step[OF Suc.prems(1,2)] tr] show ?thesis .
  qed
qed

lemma seedInputs_other:
  "seedInputs impl inputData names m = (r, m') \<Longrightarrow> k \<notin> set names \<Longrightarrow>
     map_of (modelLayersMap m') k = map_of (modelLayersMap m) k
     \<and> map_of (inputTensors m') k = map_of (inputTensors m) k"
proof (induction names arbitrary: m)
  case Nil
  then show ?case by simp
next
  case (Cons n rest)
  from Cons.prems(2) have kn: "k \<noteq> n" and kr: "k \<notin> set rest" by simp_all
  show ?case
  proof (cases "map_of (inputTensors m) n")
    case None
    with Cons.prems show ?thesis by simp
  next
    case (Some t)
    note t = this
    show ?thesis
    proof (cases "map_of inputData n")
      case None
      with Cons.prems t show ?thesis by simp
    next
      case (Some jv)
      show ?thesis
      proof (cases jv)
        case OtherValue
        with Cons.prems t Some show ?thesis by simp
      next
        case (Float32Array d)
        note d = Some[unfolded this]
        define m1 where "m1 = m\<lparr>inputTensors := AList.update n (replaceTensorData t d) (inputTensors m)\<rparr>"
        have m1l: "modelLayersMap m1 = modelLayersMap m" by (simp add: m1_def)
        have m1i: "map_of (inputTensors m1) k = map_of (inputTensors m) k"
          using kn by (simp add: m1_def update_conv')
        show ?thesis
        proof (cases "map_of (modelLayersMap m) n")
          case None
          with Cons.prems t d m1l m1i show ?thesis by (auto simp: m1_def[symmetric] Let_def)
        next
          case (Some l)
          obtain r1 m2 where ic: "invokeCall impl l (Single (replaceTensorData t d)) m1 = (r1, m2)"
            by (metis surj_pair)
          from invokeCall_model[OF ic] have m2: "m2 = m1\<lparr>callLog := callLog m1 @ [lname l]\<rparr>" .
          show ?thesis
          proof (cases r1)
            case (Inl e)
            with Cons.prems t d Some ic m1l m1i m2 show ?thesis
              by (auto simp: m1_def[symmetric] Let_def)
          next
            case (Inr res)
            define m3 where "m3 = m2\<lparr>modelLayersMap := AList.update n (l\<lparr>lresult := Some res, hasResult := True,
                      visited := True\<rparr>) (modelLayersMap m2)\<rparr>"
            from Inr Cons.prems t d Some ic m1l
            have rec: "seedInputs impl inputData rest m3 = (r, m')"
              by (simp add: m1_def[symmetric] m3_def Let_def)
            have "map_of (modelLayersMap m3) k = map_of (modelLayersMap m) k"
              using kn by (simp add: m3_def m2 m1l update_conv')
            moreover have "map_of (inputTensors m3) k = map_of (inputTensors m) k"
              using m1i by (simp add: m3_def m2)
            ultimately show ?thesis using Cons.IH[OF rec kr] by simp
          qed
        qed
      qed
    qed
  qed
qed

lemma seedInputs_results:
  "seedInputs impl inputData names m = (Inr (), m') \<Longrightarrow> distinct names \<Longrightarrow>
     (\<forall>n \<in> set names. \<forall>l. map_of (modelLayersMap m) n = Some l \<longrightarrow> lname l = n) \<Longrightarrow>
     (\<forall>k \<in> set names. \<exists>l t d. map_of (modelLayersMap m') k = Some l \<and> hasResult l
         \<and> map_of (inputTensors m') k = Some t
         \<and> map_of inputData k = Some (Float32Array d) \<and> tdata t = d
         \<and> lresult l = layerCall impl k (Single t) \<and> lresult l \<noteq> None)"
proof (induction names arbitrary: m)
  case Nil
  then show ?case by simp
next
  case (Cons n rest)
  from Cons.prems(2) have nr: "n \<notin> set rest" and dr: "distinct rest" by simp_all
  show ?case
  proof (cases "map_of (inputTensors m) n")
    case None
    with Cons.prems show ?thesis by simp
  next
    case (Some t)
    note t = this
    show ?thesis
    proof (cases "map_of inputData n")
      case None
      with Cons.prems t show ?thesis by simp
    next
      case (Some jv)
      show ?thesis
      proof (cases jv)
        case OtherValue
        with Cons.prems t Some show ?thesis by simp
      next
        case (Float32Array d)
        note d = Some[unfolded this]
        define tt where "tt = replaceTensorData t d"
        define m1 where "m1 = m\<lparr>inputTensors := AList.update n tt (inputTensors m)\<rparr>"
        have m1l: "modelLayersMap m1 = modelLayersMap m" by (simp add: m1_def)
        show ?thesis
        proof (cases "map_of (modelLayersMap m) n")
          case None
          with Cons.prems t d m1l show ?thesis
            by (simp add: tt_def[symmetric] m1_def[symmetric] Let_def)
        next
          case (Some l)
          with Cons.prems(3) have ln: "lname l = n" by simp
          obtain r1 m2 where ic: "invokeCall impl l (Single tt) m1 = (r1, m2)"
            by (metis surj_pair)
          from invokeCall_model[OF ic] have m2: "m2 = m1\<lparr>callLog := callLog m1 @ [lname l]\<rparr>" .
          show ?thesis
          proof (cases r1)
            case (Inl e)
            with Cons.prems t d Some ic m1l show ?thesis
              by (simp add: tt_def[symmetric] m1_def[symmetric] Let_def)
          next
            case (Inr res)
            with ic ln have lc: "layerCall impl n (Single tt) = Some res"
              by (auto simp: invokeCall_def split: option.splits)
            define m3 where "m3 = m2\<lparr>modelLayersMap := AList.update n (l\<lparr>lresult := Some res, hasResult := True,
                      visited := True\<rparr>) (modelLayersMap m2)\<rparr>"
            from Inr Cons.prems(1) t d Some ic m1l
            have rec: "seedInputs impl inputData rest m3 = (Inr (), m')"
              by (simp add: tt_def[symmetric] m1_def[symmetric] m3_def Let_def)
            have pre: "\<forall>n' \<in> set rest. \<forall>l'. map_of (modelLayersMap m3) n' = Some l' \<longrightarrow> lname l' = n'"
              using Cons.prems(3) nr by (auto simp: m3_def m2 m1l update_conv')
            note IH = Cons.IH[OF rec dr pre]
            from seedInputs_other[OF rec nr]
            have keep: "map_of (modelLayersMap m') n = map_of (modelLayersMap m3) n"
              "map_of (inputTensors m') n = map_of (inputTensors m3) n" by simp_all
            have l3: "map_of (modelLayersMap m3) n
                = Some (l\<lparr>lresult := Some res, hasResult := True, visited := True\<rparr>)"
              by (simp add: m3_def update_conv')
            have i3: "map_of (inputTensors m3) n = Some tt"
              by (simp add: m3_def m2 m1_def update_conv')
            have td: "tdata tt = d" by (simp add: tt_def replaceTensorData_def)
            have "\<exists>l t d. map_of (modelLayersMap m') n = Some l \<and> hasResult l
                \<and> map_of (inputTensors m') n = Some t
                \<and> map_of inputData n = Some (Float32Array d) \<and> tdata t = d
                \<and> lresult l = layerCall impl n (Single t) \<and> lresult l \<noteq> None"
              using keep l3 i3 td d lc by simp
            with IH show ?thesis by simp
          qed
        qed
      qed
    qed
  qed
qed

lemma schedInv_weak: "schedInv m0 s \<Longrightarrow> weakInv m0 s"
proof -
  assume inv: "schedInv m0 s"
  note I = schedInvD[OF inv]
  have "\<forall>k \<in> set (keys (modelDAG m0)). layerOk (mdl s) k"
  proof
    fix k assume "k \<in> set (keys (modelDAG m0))"
    then obtain nd where "map_of (modelDAG m0) k = Some nd" by (auto simp: keys_map_of)
    from I(4)[OF this] show "layerOk (mdl s) k" .
  qed
  with I(1,3) show ?thesis by (simp add: weakInv_def)
qed

lemma predict_results:
  assumes v: "validDAG m" and ok: "callsSucceed impl"
    and n: "namesOk inputData m" and vo: "valuesOk inputData m" and f: "fuelBound m \<le> fuel"
  shows "\<exists>out m'. predict impl fuel inputData m = Some (Inr out, m')
     \<and> modelDAG m' = modelDAG m \<and> resultsInv impl m'
     \<and> (\<forall>k \<in> set (keys (inputTensors m')). \<exists>t d. map_of (inputTensors m') k = Some t
           \<and> map_of inputData k = Some (Float32Array d) \<and> tdata t = d)"
proof -
  let ?names = "sort (keys (inputTensors m))"
  let ?mr = "resetLayers (m\<lparr>isRunning := True\<rparr>)"
  from initial_schedInv[OF v ok vo] obtain ms where
    seed: "seedInputs impl inputData ?names ?mr = (Inr (), ms)"
    and inv: "schedInv m \<lparr>mdl = ms, frontier = ?names, rejected = False\<rparr>"
    and rem: "remaining \<lparr>mdl = ms, frontier = ?names, rejected = False\<rparr> \<le> fuelBound m"
    and ki: "keys (inputTensors ms) = keys (inputTensors m)"
    by blast
  from rem f have "remaining \<lparr>mdl = ms, frontier = ?names, rejected = False\<rparr> \<le> fuel" by simp
  from traverseDAG_terminates[OF v ok inv this] obtain s where
    tr: "traverseDAG impl fuel \<lparr>mdl = ms, frontier = ?names, rejected = False\<rparr> = Some s"
    and invs: "schedInv m s" and fin: "frontier s = []" by blast
  from outputs_succeeds[OF v invs fin] obtain out where out: "fst (outputs (mdl s)) = Inr out" by blast
  note I = schedInvD[OF invs]
  note I0 = schedInvD[OF inv]
  have nk: "namesOk inputData (m\<lparr>isRunning := True\<rparr>)" "valuesOk inputData (m\<lparr>isRunning := True\<rparr>)"
    using n vo by (simp_all add: namesOk_def valuesOk_def)
  have p: "predict impl fuel inputData m = Some (outputs (mdl s))"
    using nk seed tr I(2) by (simp add: predict_def Let_def)
  from v have di: "distinct (keys (inputTensors m))" by (simp add: validDAG_def)
  then have dn: "distinct ?names" by simp
  have pre: "\<forall>n \<in> set ?names. \<forall>l. map_of (modelLayersMap ?mr) n = Some l \<longrightarrow> lname l = n"
  proof (intro ballI allI impI)
    fix k l assume k: "k \<in> set ?names" and l: "map_of (modelLayersMap ?mr) k = Some l"
    from k v have "k \<in> set (keys (modelDAG m))" by (auto simp: validDAG_def list_all_iff)
    then obtain nd where "map_of (modelDAG m) k = Some nd" by (auto simp: keys_map_of)
    from validDAG_node(2)[OF v this] l show "lname l = k" by (auto simp: map_of_resetLayers)
  qed
  note sr = seedInputs_results[OF seed dn pre]
  have dag0: "modelDAG ms = modelDAG m" using I0(1) by simp
  have r0: "resultsInv impl ms"
    unfolding resultsInv_def
  proof (intro allI impI)
    fix k nd l
    assume h: "map_of (modelDAG ms) k = Some nd \<and> map_of (modelLayersMap ms) k = Some l \<and> hasResult l"
    then have nd: "map_of (modelDAG m) k = Some nd" and l: "map_of (modelLayersMap ms) k = Some l"
      and hr: "hasResult l" by (simp_all add: dag0)
    have kin: "k \<in> set ?names"
    proof (rule ccontr)
      assume "k \<notin> set ?names"
      from seedInputs_other[OF seed this] l have "map_of (modelLayersMap ?mr) k = Some l" by simp
      with hr show False by (auto simp: map_of_resetLayers)
    qed
    with validDAG_node(3)[OF v nd] have il: "layerClass nd = ''InputLayer''" by simp
    with validDAG_node(4)[OF v nd] have ib: "inbound nd = []" by simp
    from sr kin l obtain t where "map_of (inputTensors ms) k = Some t"
      "lresult l = layerCall impl k (Single t)" "lresult l \<noteq> None" by fastforce
    with il ib show "(\<exists>arg. callArgument impl ms k nd = Some arg \<and> lresult l = layerCall impl k arg
           \<and> lresult l \<noteq> None) \<and> (\<forall>p \<in> set (inbound nd). computed ms p)"
      by (simp add: callArgument_def)
  qed
  from traverseDAG_results[OF v schedInv_weak[OF inv] _ tr] r0 have rs: "resultsInv impl (mdl s)" by simp
  from traverseDAG_static[OF tr] have its: "inputTensors (mdl s) = inputTensors ms" by simp
  have inp: "\<forall>k \<in> set (keys (inputTensors (mdl s))). \<exists>t d. map_of (inputTensors (mdl s)) k = Some t
           \<and> map_of inputData k = Some (Float32Array d) \<and> tdata t = d"
  proof
    fix k assume "k \<in> set (keys (inputTensors (mdl s)))"
    with its ki have "k \<in> set ?names" by simp
    with sr its show "\<exists>t d. map_of (inputTensors (mdl s)) k = Some t
           \<and> map_of inputData k = Some (Float32Array d) \<and> tdata t = d" by fastforce
  qed
  define m' where "m' = snd (outputs (mdl s))"
  have "outputs (mdl s) = (fst (outputs (mdl s)), m')" by (simp add: m'_def)
  from outputs_model[OF this] have mm: "m' = mdl s \<or> m' = (mdl s)\<lparr>isRunning := False\<rparr>" .
  then have a: "modelDAG m' = modelDAG m" using I(1) by auto
  from mm rs have b: "resultsInv impl m'" by (auto simp: resultsInv_isRunning)
  from mm inp have c: "\<forall>k \<in> set (keys (inputTensors m')). \<exists>t d. map_of (inputTensors m') k = Some t
           \<and> map_of inputData k = Some (Float32Array d) \<and> tdata t = d" by auto
  from p out have "predict impl fuel inputData m = Some (Inr out, m')"
    unfolding m'_def by (metis prod.collapse)
  with a b c show ?thesis by blast
qed

section \<open>The example graphs are well-formed\<close>

lemma exampleImpl_succeeds: "callsSucceed exampleImpl"
  by (simp add: callsSucceed_def exampleImpl_def split: call_arg.splits)

lemma diamond_valid: "validDAG diamondModel"
  by (simp add: validDAG_def diamondModel_def exampleNode_def exampleLayer_def nodeOk_def keys_def)

lemma diamond_names: "namesOk diamondInput diamondModel"
  by (simp add: namesOk_def diamondInput_def diamondModel_def keys_def)

lemma diamond_values: "valuesOk diamondInput diamondModel"
  by (simp add: valuesOk_def diamondInput_def diamondModel_def keys_def isFloat32Array_def)

lemma diamond_fuel: "fuelBound diamondModel = 7"
  by (simp add: fuelBound_def diamondModel_def keys_def branchWeight_def exampleNode_def)

text \<open>The graph that \<^verbatim>\<open>_createLayers\<close> builds from the configuration of the
  sequential model of two layers is well-formed, and is the graph of \<open>chainModel\<close>.\<close>

lemma created_chain_valid:
  "validDAG (projr (createLayers exampleRegExp exampleModule chainJson chainMetadata 36 (constructed False :: nat model)))"
  by code_simp

lemma created_chain_graph:
  "modelDAG (projr (createLayers exampleRegExp exampleModule chainJson chainMetadata 36 (constructed False :: nat model)))
     = modelDAG chainModel"
  by code_simp

section \<open>The claims\<close>

text \<open>
  C1. On a well-formed graph, with inputs that pass the two checks of \<^verbatim>\<open>predict\<close>,
  layers whose \<^verbatim>\<open>call\<close> does not throw and enough fuel for every branch, the
  call returns; during it the \<^verbatim>\<open>call\<close> of every node's layer is invoked exactly
  once (\<open>calls\<close> is what the call appended to the log of invocations), and every
  layer ends with \<^verbatim>\<open>hasResult\<close> and \<^verbatim>\<open>visited\<close> true and with the result of
  its \<^verbatim>\<open>call\<close>: the value of \<open>layerCall\<close> for the node on the argument that the
  code prepares from the results of the layers of the inbound nodes (for an input
  layer, on its input tensor, which holds the data given for it). This holds with and
  without \<^verbatim>\<open>layerCallPauses\<close>.
\<close>

theorem every_node_computed_once:
  assumes "validDAG m" and "callsSucceed impl" and "namesOk inputData m"
    and "valuesOk inputData m" and "fuelBound m \<le> fuel"
  shows "\<exists>out m' calls. predict impl fuel inputData m = Some (Inr out, m')
     \<and> callLog m' = callLog m @ calls
     \<and> (\<forall>k \<in> set (keys (modelDAG m)). count_list calls k = 1
          \<and> (\<exists>l nd arg. map_of (modelLayersMap m') k = Some l \<and> hasResult l \<and> visited l
                \<and> map_of (modelDAG m) k = Some nd \<and> callArgument impl m' k nd = Some arg
                \<and> lresult l = layerCall impl k arg \<and> lresult l \<noteq> None))
     \<and> (\<forall>k \<in> set (keys (inputTensors m')). \<exists>t d. map_of (inputTensors m') k = Some t
           \<and> map_of inputData k = Some (Float32Array d) \<and> tdata t = d)"
proof -
  from predict_computes_all[OF assms] obtain out m' log where
    p: "predict impl fuel inputData m = Some (Inr out, m')" and lg: "callLog m' = callLog m @ log"
    and each: "\<forall>k \<in> set (keys (modelDAG m)). count_list log k = 1
          \<and> (\<exists>l. map_of (modelLayersMap m') k = Some l \<and> lname l = k \<and> hasResult l \<and> visited l
                \<and> lresult l \<noteq> None)"
    by blast
  from predict_results[OF assms] p have dag: "modelDAG m' = modelDAG m" and rs: "resultsInv impl m'"
    and inp: "\<forall>k \<in> set (keys (inputTensors m')). \<exists>t d. map_of (inputTensors m') k = Some t
           \<and> map_of inputData k = Some (Float32Array d) \<and> tdata t = d"
    by auto
  have "count_list log k = 1
          \<and> (\<exists>l nd arg. map_of (modelLayersMap m') k = Some l \<and> hasResult l \<and> visited l
                \<and> map_of (modelDAG m) k = Some nd \<and> callArgument impl m' k nd = Some arg
                \<and> lresult l = layerCall impl k arg \<and> lresult l \<noteq> None)"
    if k: "k \<in> set (keys (modelDAG m))" for k
  proof -
    from each k obtain l where c: "count_list log k = 1" and l: "map_of (modelLayersMap m') k = Some l"
      "hasResult l" "visited l" by blast
    from k obtain nd where nd: "map_of (modelDAG m) k = Some nd" by (auto simp: keys_map_of)
    from rs nd l(1,2) dag obtain arg where "callArgument impl m' k nd = Some arg"
      "lresult l = layerCall impl k arg" "lresult l \<noteq> None"
      unfolding resultsInv_def by fastforce
    with c l nd show ?thesis by blast
  qed
  with p lg inp show ?thesis by blast
qed

theorem every_node_computed_once_witness:
  "validDAG diamondModel \<and> callsSucceed exampleImpl \<and> namesOk diamondInput diamondModel
   \<and> valuesOk diamondInput diamondModel \<and> fuelBound diamondModel \<le> 7
   \<and> (\<exists>out m' calls. predict exampleImpl 7 diamondInput diamondModel = Some (Inr out, m')
        \<and> callLog m' = callLog diamondModel @ calls
        \<and> (\<forall>k \<in> set (keys (modelDAG diamondModel)). count_list calls k = 1
             \<and> (\<exists>l nd arg. map_of (modelLayersMap m') k = Some l \<and> hasResult l \<and> visited l
                   \<and> map_of (modelDAG diamondModel) k = Some nd
                   \<and> callArgument exampleImpl m' k nd = Some arg
                   \<and> lresult l = layerCall exampleImpl k arg \<and> lresult l \<noteq> None))
        \<and> (\<forall>k \<in> set (keys (inputTensors m')). \<exists>t d. map_of (inputTensors m') k = Some t
              \<and> map_of diamondInput k = Some (Float32Array d) \<and> tdata t = d))
   \<and> callArgument exampleImpl (snd (the (predict exampleImpl 7 diamondInput diamondModel))) ''m''
         (exampleNode ''Merge'' ''m'' [''a'', ''b''] [])
       = Some (Multi [newTensor [3, 4] [2], newTensor [3, 4] [2]])
   \<and> map_option lresult
         (map_of (modelLayersMap (snd (the (predict exampleImpl 7 diamondInput diamondModel)))) ''m'')
       = Some (layerCall exampleImpl ''m'' (Multi [newTensor [3, 4] [2], newTensor [3, 4] [2]]))"
proof -
  have f: "fuelBound diamondModel \<le> 7" by (simp add: diamond_fuel)
  have a: "callArgument exampleImpl (snd (the (predict exampleImpl 7 diamondInput diamondModel))) ''m''
         (exampleNode ''Merge'' ''m'' [''a'', ''b''] [])
       = Some (Multi [newTensor [3, 4] [2], newTensor [3, 4] [2]])" by code_simp
  have r: "map_option lresult
         (map_of (modelLayersMap (snd (the (predict exampleImpl 7 diamondInput diamondModel)))) ''m'')
       = Some (layerCall exampleImpl ''m'' (Multi [newTensor [3, 4] [2], newTensor [3, 4] [2]]))"
    by code_simp
  from every_node_computed_once[OF diamond_valid exampleImpl_succeeds diamond_names diamond_values f]
  have "\<exists>out m' calls. predict exampleImpl 7 diamondInput diamondModel = Some (Inr out, m')
        \<and> callLog m' = callLog diamondModel @ calls
        \<and> (\<forall>k \<in> set (keys (modelDAG diamondModel)). count_list calls k = 1
             \<and> (\<exists>l nd arg. map_of (modelLayersMap m') k = Some l \<and> hasResult l \<and> visited l
                   \<and> map_of (modelDAG diamondModel) k = Some nd
                   \<and> callArgument exampleImpl m' k nd = Some arg
                   \<and> lresult l = layerCall exampleImpl k arg \<and> lresult l \<noteq> None))
        \<and> (\<forall>k \<in> set (keys (inputTensors m')). \<exists>t d. map_of (inputTensors m') k = Some t
              \<and> map_of diamondInput k = Some (Float32Array d) \<and> tdata t = d)" .
  with diamond_valid exampleImpl_succeeds diamond_names diamond_values f a r show ?thesis
    by (intro conjI)
qed



text \<open>
  C5. When the names of \<^verbatim>\<open>inputData\<close> are not exactly the declared input names
  (as sets: the comparison sorts both), or a declared input has a value that is not
  a \<^verbatim>\<open>Float32Array\<close>, \<^verbatim>\<open>predict\<close> fails with the input error and the model
  is the one before the call with \<^verbatim>\<open>isRunning\<close> false: flags, results and
  everything else are as before. A following call with correct inputs succeeds (on a
  well-formed graph whose layers do not throw).
\<close>

theorem invalid_input_rejected:
  assumes d: "distinct (keys inputData)" and v: "validDAG m" and ok: "callsSucceed impl"
    and bad: "set (keys inputData) \<noteq> set (keys (inputTensors m))
       \<or> \<not> list_all (\<lambda>k. isFloat32Array (map_of inputData k)) (keys (inputTensors m))"
    and good: "namesOk goodData m" "valuesOk goodData m" and f: "fuelBound m \<le> fuel"
  shows "predict impl fuel inputData m = Some (Inl InvalidInputError, m\<lparr>isRunning := False\<rparr>)
     \<and> (\<exists>out m'. predict impl fuel goodData (m\<lparr>isRunning := False\<rparr>) = Some (Inr out, m'))"
proof -
  from v have di: "distinct (keys (inputTensors m))" by (simp add: validDAG_def)
  have n: "namesOk inputData m = (set (keys inputData) = set (keys (inputTensors m)))"
    unfolding namesOk_def by (rule sort_eq_iff_set[OF d di])
  have vo: "valuesOk inputData m = list_all (\<lambda>k. isFloat32Array (map_of inputData k)) (keys (inputTensors m))"
    by (simp add: valuesOk_def list_all_iff)
  from bad n vo have "\<not> namesOk inputData m \<or> \<not> valuesOk inputData m" by blast
  then have "\<not> namesOk inputData (m\<lparr>isRunning := True\<rparr>) \<or> \<not> valuesOk inputData (m\<lparr>isRunning := True\<rparr>)"
    by (simp add: namesOk_def valuesOk_def)
  then have first: "predict impl fuel inputData m = Some (Inl InvalidInputError, m\<lparr>isRunning := False\<rparr>)"
    by (auto simp: predict_def Let_def)
  let ?m = "m\<lparr>isRunning := False\<rparr>"
  have v': "validDAG ?m" using v by (simp add: validDAG_isRunning)
  have g': "namesOk goodData ?m" "valuesOk goodData ?m" using good by (simp_all add: namesOk_def valuesOk_def)
  have "branchWeight ?m = branchWeight m" by (rule branchWeight_same) simp
  then have f': "fuelBound ?m \<le> fuel" using f by (simp add: fuelBound_def)
  from predict_succeeds[OF v' ok g' f'] have "\<exists>out m'. predict impl fuel goodData ?m = Some (Inr out, m')"
    by blast
  with first show ?thesis by blast
qed

theorem invalid_input_rejected_witness:
  "distinct (keys wrongNameInput) \<and> distinct (keys wrongValueInput) \<and> validDAG diamondModel
   \<and> callsSucceed exampleImpl
   \<and> set (keys wrongNameInput) \<noteq> set (keys (inputTensors diamondModel))
   \<and> \<not> list_all (\<lambda>k. isFloat32Array (map_of wrongValueInput k)) (keys (inputTensors diamondModel))
   \<and> namesOk diamondInput diamondModel \<and> valuesOk diamondInput diamondModel
   \<and> fuelBound diamondModel \<le> 7
   \<and> predict exampleImpl 7 wrongNameInput diamondModel
        = Some (Inl InvalidInputError, diamondModel\<lparr>isRunning := False\<rparr>)
   \<and> predict exampleImpl 7 wrongValueInput diamondModel
        = Some (Inl InvalidInputError, diamondModel\<lparr>isRunning := False\<rparr>)
   \<and> (\<exists>out m'. predict exampleImpl 7 diamondInput (diamondModel\<lparr>isRunning := False\<rparr>)
        = Some (Inr out, m'))"
proof -
  have f: "fuelBound diamondModel \<le> 7" by (simp add: diamond_fuel)
  have d1: "distinct (keys wrongNameInput)" by code_simp
  have d2: "distinct (keys wrongValueInput)" by code_simp
  have b1: "set (keys wrongNameInput) \<noteq> set (keys (inputTensors diamondModel))" by code_simp
  have b2: "\<not> list_all (\<lambda>k. isFloat32Array (map_of wrongValueInput k))
      (keys (inputTensors diamondModel))" by code_simp
  from b1 have b1': "set (keys wrongNameInput) \<noteq> set (keys (inputTensors diamondModel))
       \<or> \<not> list_all (\<lambda>k. isFloat32Array (map_of wrongNameInput k)) (keys (inputTensors diamondModel))"
    by blast
  from b2 have b2': "set (keys wrongValueInput) \<noteq> set (keys (inputTensors diamondModel))
       \<or> \<not> list_all (\<lambda>k. isFloat32Array (map_of wrongValueInput k)) (keys (inputTensors diamondModel))"
    by blast
  from invalid_input_rejected[OF d1 diamond_valid exampleImpl_succeeds b1' diamond_names diamond_values f]
    invalid_input_rejected[OF d2 diamond_valid exampleImpl_succeeds b2' diamond_names diamond_values f]
  show ?thesis using d1 d2 b1 b2 f diamond_valid exampleImpl_succeeds diamond_names diamond_values
    by blast
qed

text \<open>
  C7. When \<^verbatim>\<open>predict\<close> completes, what it returns for a \<^verbatim>\<open>Model\<close> graph maps
  exactly the names of the nodes without outbound nodes, each to the buffer of its
  layer's result; for a \<^verbatim>\<open>Sequential\<close> graph it maps the one key \<open>output\<close> to the
  buffer of the (first) node without outbound nodes. \<open>resultData\<close> reads the result
  buffer of a layer in the model that the call leaves.
\<close>

theorem outputs_are_terminal_nodes:
  assumes "predict impl fuel inputData m = Some (Inr out, m')"
  shows "(modelClass m = ''Sequential'' \<longrightarrow>
           (\<exists>nd d. find (\<lambda>nd. outbound nd = []) (map snd (modelDAG m)) = Some nd
              \<and> resultData m' (nname nd) = Some d \<and> out = OutputData [(''output'', d)]))
      \<and> (modelClass m = ''Model'' \<longrightarrow>
           (\<exists>outputData. out = OutputData outputData
              \<and> (\<forall>name. map_of outputData name =
                    (if name \<in> nname ` {nd \<in> snd ` set (modelDAG m). outbound nd = []}
                     then resultData m' name else None))))"
proof -
  from predict_Inr[OF assms] obtain ms where o: "outputs ms = (Inr out, m')"
    and g: "modelDAG ms = modelDAG m" and c: "modelClass ms = modelClass m" by blast
  note rd = outputs_resultData[OF o]
  have seq: "\<exists>nd d. find (\<lambda>nd. outbound nd = []) (map snd (modelDAG m)) = Some nd
              \<and> resultData m' (nname nd) = Some d \<and> out = OutputData [(''output'', d)]"
    if "modelClass m = ''Sequential''"
    using o that c g rd by (auto simp: outputs_def split: option.splits)
  have mdl: "\<exists>outputData. out = OutputData outputData
              \<and> (\<forall>name. map_of outputData name =
                    (if name \<in> nname ` {nd \<in> snd ` set (modelDAG m). outbound nd = []}
                     then resultData m' name else None))"
    if "modelClass m = ''Model''"
  proof -
    from o that c g obtain od where
      co: "collectOutputs ms (filter (\<lambda>nd. outbound nd = []) (map snd (modelDAG m))) [] = Inr od"
      and out: "out = OutputData od"
      by (auto simp: outputs_def split: sum.splits)
    have "set (filter (\<lambda>nd. outbound nd = []) (map snd (modelDAG m)))
        = {nd \<in> snd ` set (modelDAG m). outbound nd = []}" by auto
    with collectOutputs_map_of[OF co] rd out show ?thesis by simp
  qed
  from seq mdl show ?thesis by blast
qed

theorem outputs_are_terminal_nodes_witness:
  "predict exampleImpl 4 chainInput chainModel
     = Some (Inr (OutputData [(''output'', [4, 5])]),
             snd (the (predict exampleImpl 4 chainInput chainModel)))
   \<and> modelClass chainModel = ''Sequential''
   \<and> (\<exists>nd d. find (\<lambda>nd. outbound nd = []) (map snd (modelDAG chainModel)) = Some nd
          \<and> resultData (snd (the (predict exampleImpl 4 chainInput chainModel))) (nname nd) = Some d
          \<and> OutputData [(''output'', [4, 5])] = OutputData [(''output'', d)])
   \<and> predict exampleImpl 7 diamondInput diamondModel
     = Some (Inr (OutputData [(''m'', [3, 4, 3, 4])]),
             snd (the (predict exampleImpl 7 diamondInput diamondModel)))
   \<and> modelClass diamondModel = ''Model''
   \<and> (\<exists>outputData. OutputData [(''m'', [3, 4, 3, 4])] = OutputData outputData
          \<and> (\<forall>name. map_of outputData name =
                (if name \<in> nname ` {nd \<in> snd ` set (modelDAG diamondModel). outbound nd = []}
                 then resultData (snd (the (predict exampleImpl 7 diamondInput diamondModel))) name
                 else None)))"
proof -
  have h1: "predict exampleImpl 4 chainInput chainModel
     = Some (Inr (OutputData [(''output'', [4, 5])]),
             snd (the (predict exampleImpl 4 chainInput chainModel)))" by code_simp
  have h2: "predict exampleImpl 7 diamondInput diamondModel
     = Some (Inr (OutputData [(''m'', [3, 4, 3, 4])]),
             snd (the (predict exampleImpl 7 diamondInput diamondModel)))" by code_simp
  have c1: "modelClass chainModel = ''Sequential''" by (simp add: chainModel_def)
  have c2: "modelClass diamondModel = ''Model''" by (simp add: diamondModel_def)
  from outputs_are_terminal_nodes[OF h1] outputs_are_terminal_nodes[OF h2] c1 c2 h1 h2
  show ?thesis by blast
qed

text \<open>
  C8. In every state of a call of \<^verbatim>\<open>predict\<close> after the reset (after \<open>j\<close> input
  layers are seeded, and after \<open>n\<close> branches of the traversal), \<^verbatim>\<open>hasResult\<close> and
  \<^verbatim>\<open>visited\<close> are equal on every layer; from one state to the next no flag that is
  set is cleared; after the reset both are false on every layer; and on a well-formed
  graph whose layers do not throw the call ends in a state in which both are true on
  every node. So each flag of a node becomes true once, together with the other.
\<close>

theorem flags_set_together:
  "flagsAgree (seedState impl inputData m j) \<and> flagsAgree (mdl (schedAt impl inputData m n))
   \<and> flagsKept (seedState impl inputData m j) (seedState impl inputData m (Suc j))
   \<and> flagsKept (mdl (schedAt impl inputData m n)) (mdl (schedAt impl inputData m (Suc n)))
   \<and> (\<forall>k. \<not> computed (seedState impl inputData m 0) k \<and> \<not> wasVisited (seedState impl inputData m 0) k)
   \<and> (validDAG m \<and> callsSucceed impl \<and> namesOk inputData m \<and> valuesOk inputData m
        \<and> fuelBound m \<le> fuel \<longrightarrow>
       (\<exists>N out m'. predict impl fuel inputData m = Some (Inr out, m')
          \<and> frontier (schedAt impl inputData m N) = []
          \<and> modelLayersMap m' = modelLayersMap (mdl (schedAt impl inputData m N))
          \<and> (\<forall>k \<in> set (keys (modelDAG m)). computed (mdl (schedAt impl inputData m N)) k
                \<and> wasVisited (mdl (schedAt impl inputData m N)) k)))"
  using flagsAgree_seedState[of impl inputData m j] flagsAgree_schedAt[of impl inputData m n]
    flagsKept_seedState[of impl inputData m j] flagsKept_schedAt[of impl inputData m n]
    flags_initially_clear[of impl inputData m] predict_trace[of m impl inputData fuel]
  by blast

theorem flags_set_together_witness:
  "flagsAgree (seedState exampleImpl diamondInput diamondModel 1)
   \<and> flagsAgree (mdl (schedAt exampleImpl diamondInput diamondModel 2))
   \<and> flagsKept (seedState exampleImpl diamondInput diamondModel 1)
        (seedState exampleImpl diamondInput diamondModel (Suc 1))
   \<and> flagsKept (mdl (schedAt exampleImpl diamondInput diamondModel 2))
        (mdl (schedAt exampleImpl diamondInput diamondModel (Suc 2)))
   \<and> validDAG diamondModel \<and> callsSucceed exampleImpl \<and> namesOk diamondInput diamondModel
   \<and> valuesOk diamondInput diamondModel \<and> fuelBound diamondModel \<le> 7
   \<and> (\<exists>N out m'. predict exampleImpl 7 diamondInput diamondModel = Some (Inr out, m')
          \<and> frontier (schedAt exampleImpl diamondInput diamondModel N) = []
          \<and> modelLayersMap m' = modelLayersMap (mdl (schedAt exampleImpl diamondInput diamondModel N))
          \<and> (\<forall>k \<in> set (keys (modelDAG diamondModel)).
                computed (mdl (schedAt exampleImpl diamondInput diamondModel N)) k
                \<and> wasVisited (mdl (schedAt exampleImpl diamondInput diamondModel N)) k))"
proof -
  have f: "fuelBound diamondModel \<le> 7" by (simp add: diamond_fuel)
  from flags_set_together[of exampleImpl diamondInput diamondModel 1 2 7]
  show ?thesis using diamond_valid exampleImpl_succeeds diamond_names diamond_values f
    by blast
qed

text \<open>
  C4. The claim asks that a node whose inbound producer has no other consumer receive
  the producer's host result itself, with the sibling flag false. The code computes
  the flag as \<^verbatim>\<open>numSiblingNodes >= 1\<close>, and \<^verbatim>\<open>numSiblingNodes\<close> counts the node
  itself among the outbound nodes of its producers: the flag is true on every node
  of a well-formed graph (\<open>copyBeforeCall_always\<close>). Here the code is run on
  the two-layer sequential graph: when the branch of \<open>d1\<close> runs, its only producer
  \<open>input\<close> has the host result \<open>[2, 3]\<close> and the single consumer \<open>d1\<close>, the flag
  is true, and the branch constructs a new tensor.
\<close>

theorem single_consumer_still_copied:
  "frontier (schedAt exampleImpl chainInput chainModel 1) = [''d1'']
   \<and> map_of (modelDAG chainModel) ''d1'' = Some (exampleNode ''Dense'' ''d1'' [''input''] [''d2''])
   \<and> map_of (modelDAG chainModel) ''input'' = Some (exampleNode ''InputLayer'' ''input'' [] [''d1''])
   \<and> resultData (mdl (schedAt exampleImpl chainInput chainModel 1)) ''input'' = Some [2, 3]
   \<and> (case map_of (modelLayersMap (mdl (schedAt exampleImpl chainInput chainModel 1))) ''input'' of
          None \<Rightarrow> None | Some l \<Rightarrow> map_option fromPipeline (lresult l)) = Some False
   \<and> copyBeforeCall [exampleNode ''InputLayer'' ''input'' [] [''d1'']]
   \<and> tensorsCreated (mdl (schedAt exampleImpl chainInput chainModel 1)) = 0
   \<and> tensorsCreated (mdl (schedAt exampleImpl chainInput chainModel 2)) = 1"
  by code_simp

text \<open>
  C2 as stated fails: when the request of the model fails, the promise that
  \<^verbatim>\<open>ready()\<close> returns is fulfilled, not rejected.
\<close>

theorem load_failure_ready_fulfilled:
  "Failed \<in> set (map snd modelFetchFails)
   \<and> promiseAll modelFetchFails = Rejected ArtifactLoadError
   \<and> fst (initialize modelFetchFails None) = Resolved ()"
  by code_simp

text \<open>
  C2, as the code has it. When a request has failed, the handler of \<^verbatim>\<open>.catch\<close>
  interrupts and returns: the promise of \<^verbatim>\<open>ready()\<close> is fulfilled, and afterwards
  the requests of the model and of the weights are not in flight and are not held in
  \<^verbatim>\<open>this.xhrs\<close>.
\<close>

theorem load_failure_interrupts:
  assumes "Failed \<in> set (map snd rs)"
  shows "fst (initialize rs build) = Resolved ()
     \<and> settledFor (snd (initialize rs build)) ''model''
     \<and> settledFor (snd (initialize rs build)) ''weights''"
proof -
  from assms have i: "initialize rs build = (Resolved (), interrupt (sent rs))"
    by (simp add: initialize_def promiseAll_def)
  have "settledFor (interrupt (sent rs)) ''model''" "settledFor (interrupt (sent rs)) ''weights''"
    unfolding interrupt_def by (rule interruptTypes_settles[OF registered_sent], simp)+
  with i show ?thesis by simp
qed

theorem load_failure_interrupts_witness:
  "Failed \<in> set (map snd modelFetchFails)
   \<and> fst (initialize modelFetchFails None) = Resolved ()
   \<and> settledFor (snd (initialize modelFetchFails None)) ''model''
   \<and> settledFor (snd (initialize modelFetchFails None)) ''weights''
   \<and> map_of (requests (snd (initialize modelFetchFails None))) ''weights'' = Some Aborted"
proof -
  have a: "Failed \<in> set (map snd modelFetchFails)" by code_simp
  have b: "map_of (requests (snd (initialize modelFetchFails None))) ''weights'' = Some Aborted"
    by code_simp
  from load_failure_interrupts[OF a, of None] a b show ?thesis by blast
qed

text \<open>
  C3 as stated fails: with two matching entries the binding does not fail, it takes
  the first. The weight name is plain, and the expression \<^verbatim>\<open>/^dense_1_W/\<close> matches
  the weight names of both entries.
\<close>

theorem two_matches_bind_first:
  "plainName ''dense_1_W''
   \<and> length (filter (weightMatches (prefix ''dense_1_W'') ''dense_1'') twoMatches) = 2
   \<and> bindWeight exampleRegExp twoMatches 16 ''dense_1'' ''dense_1_W''
       = Inr \<lparr>wdata = \<lparr>byteOffset = 0, viewLength = 2\<rparr>, wshape = [2]\<rparr>"
  by code_simp

text \<open>
  C3, as the code has it, for a weight name of letters, digits and underscores (then
  \<^verbatim>\<open>new RegExp(`^${weightName}`)\<close> matches the strings that start with the
  name; any other name is a regular expression of its own, which may match other
  strings or not be an expression at all). The binding of the weight slot fails
  with the missing-weight error exactly when no metadata entry has the layer's name
  and a weight name that starts with the slot's name. When entries match, \<^verbatim>\<open>find\<close>
  takes the first one in the order of the metadata, however many follow, and the result
  is the tensor of its shape over the view of the raw buffer at its offset with its
  length (the view has to lie within the buffer, at a multiple of four bytes, for the
  typed-array constructor not to throw).
\<close>

theorem weight_binding_first_match:
  assumes "plainName weightName"
  shows "(bindWeight regExp metadata byteLength layerName weightName = Inl MissingWeightError)
       = (filter (weightMatches (prefix weightName) layerName) metadata = [])
   \<and> (\<forall>pm others. filter (weightMatches (prefix weightName) layerName) metadata = pm # others
          \<and> w_offset pm mod 4 = 0 \<and> w_offset pm + 4 * w_length pm \<le> byteLength \<longrightarrow>
        bindWeight regExp metadata byteLength layerName weightName
          = Inr \<lparr>wdata = \<lparr>byteOffset = w_offset pm, viewLength = w_length pm\<rparr>, wshape = w_shape pm\<rparr>)"
proof -
  from assms have "weightRE regExp weightName = Some (prefix weightName)"
    by (simp add: weightRE_def)
  then show ?thesis by (intro conjI bindWeight_missing bindWeight_first)
qed

theorem weight_binding_first_match_witness:
  "plainName ''dense_1_W'' \<and> plainName ''dense_2_W''
   \<and> filter (weightMatches (prefix ''dense_1_W'') ''dense_1'') twoMatches = hd twoMatches # tl twoMatches
   \<and> w_offset (hd twoMatches) mod 4 = 0
   \<and> w_offset (hd twoMatches) + 4 * w_length (hd twoMatches) \<le> 16
   \<and> bindWeight exampleRegExp twoMatches 16 ''dense_1'' ''dense_1_W''
       = Inr \<lparr>wdata = \<lparr>byteOffset = w_offset (hd twoMatches), viewLength = w_length (hd twoMatches)\<rparr>,
               wshape = w_shape (hd twoMatches)\<rparr>
   \<and> (bindWeight exampleRegExp twoMatches 16 ''dense_2'' ''dense_2_W'' = Inl MissingWeightError)
       = (filter (weightMatches (prefix ''dense_2_W'') ''dense_2'') twoMatches = [])"
proof -
  have p1: "plainName ''dense_1_W''" by code_simp
  have p2: "plainName ''dense_2_W''" by code_simp
  have a: "filter (weightMatches (prefix ''dense_1_W'') ''dense_1'') twoMatches = hd twoMatches # tl twoMatches"
    by code_simp
  have b: "w_offset (hd twoMatches) mod 4 = 0" by code_simp
  have c: "w_offset (hd twoMatches) + 4 * w_length (hd twoMatches) \<le> 16" by code_simp
  note t1 = weight_binding_first_match[OF p1, of exampleRegExp twoMatches 16 "''dense_1''"]
  note t2 = weight_binding_first_match[OF p2, of exampleRegExp twoMatches 16 "''dense_2''"]
  have r1: "bindWeight exampleRegExp twoMatches 16 ''dense_1'' ''dense_1_W''
       = Inr \<lparr>wdata = \<lparr>byteOffset = w_offset (hd twoMatches), viewLength = w_length (hd twoMatches)\<rparr>,
               wshape = w_shape (hd twoMatches)\<rparr>"
    by (rule conjunct2[OF t1, rule_format, of "hd twoMatches" "tl twoMatches"]) (intro conjI a b c)
  note r2 = conjunct1[OF t2]
  show ?thesis by (intro conjI p1 p2 a b c r1 r2)
qed

text \<open>
  C10 as stated fails for the sequential model with no layer: no input is
  synthesized, the empty mapping passes the check of names and a mapping with the
  key \<open>input\<close> does not.
\<close>

theorem empty_sequential_has_no_input:
  "createLayers exampleRegExp exampleModule emptyJson [] 0 (constructed False)
     = Inr ((constructed False :: nat model)\<lparr>modelClass := ''Sequential''\<rparr>)
   \<and> namesOk ([] :: (string \<times> nat jsval) list) ((constructed False)\<lparr>modelClass := ''Sequential''\<rparr>)
   \<and> \<not> namesOk chainInput ((constructed False)\<lparr>modelClass := ''Sequential''\<rparr>)
   \<and> set (keys chainInput) = {''input''}"
  by code_simp

text \<open>
  C10, for a sequential model with at least one layer: the one input tensor that
  \<^verbatim>\<open>_createLayers\<close> declares is named \<open>input\<close>, so the check of names of
  \<^verbatim>\<open>predict\<close> passes exactly for the mappings whose set of keys is \<open>{input}\<close>.
\<close>

theorem sequential_input_is_named_input:
  assumes "mclass j = ''Sequential''" and "mlayers j \<noteq> []"
    and "createLayers regExp lm j metadata byteLength (constructed pauses) = Inr m"
    and "distinct (keys inputData)"
  shows "keys (inputTensors m) = [''input'']
     \<and> namesOk inputData m = (set (keys inputData) = {''input''})"
proof -
  from sequential_inputTensors[OF assms(1-3)] have k: "keys (inputTensors m) = [''input'']" .
  have "namesOk inputData m = (set (keys inputData) = set (keys (inputTensors m)))"
    unfolding namesOk_def by (rule sort_eq_iff_set[OF assms(4)]) (simp add: k)
  with k show ?thesis by simp
qed

theorem sequential_input_is_named_input_witness:
  "mclass chainJson = ''Sequential'' \<and> mlayers chainJson \<noteq> []
   \<and> createLayers exampleRegExp exampleModule chainJson chainMetadata 36 (constructed False)
       = Inr (projr (createLayers exampleRegExp exampleModule chainJson chainMetadata 36 (constructed False :: nat model)))
   \<and> distinct (keys chainInput) \<and> distinct (keys wrongNameInput)
   \<and> keys (inputTensors (projr (createLayers exampleRegExp exampleModule chainJson chainMetadata 36
         (constructed False :: nat model)))) = [''input'']
   \<and> namesOk chainInput (projr (createLayers exampleRegExp exampleModule chainJson chainMetadata 36 (constructed False)))
   \<and> set (keys chainInput) = {''input''}
   \<and> \<not> namesOk wrongNameInput (projr (createLayers exampleRegExp exampleModule chainJson chainMetadata 36 (constructed False)))"
proof -
  let ?m = "projr (createLayers exampleRegExp exampleModule chainJson chainMetadata 36 (constructed False :: nat model))"
  have a: "mclass chainJson = ''Sequential''" by code_simp
  have b: "mlayers chainJson \<noteq> []" by code_simp
  have c: "createLayers exampleRegExp exampleModule chainJson chainMetadata 36 (constructed False) = Inr ?m" by code_simp
  have d1: "distinct (keys chainInput)" by code_simp
  have d2: "distinct (keys wrongNameInput)" by code_simp
  have s1: "set (keys chainInput) = {''input''}" by code_simp
  have s2: "set (keys wrongNameInput) \<noteq> {''input''}" by code_simp
  from sequential_input_is_named_input[OF a b c d1] sequential_input_is_named_input[OF a b c d2] s1 s2
  show ?thesis using a b c d1 d2 by blast
qed

text \<open>
  C9. On a well-formed graph whose layers' \<^verbatim>\<open>call\<close> does not throw, a call of
  \<^verbatim>\<open>predict\<close> that follows another call returns the buffers that it returns on
  the model on which no call was made, whatever the input of the earlier call was:
  the flags, the results and the input data that the earlier call has left in the
  layers and the input tensors do not reach the result. When the two calls have the
  same input, they return the same buffers. The weights are fixed, and a layer's
  \<^verbatim>\<open>call\<close> is a function of the layer and of the tensors it is given: the layer
  classes are not in \<^verbatim>\<open>Model.js\<close>, and \<open>layerCall\<close> stands for them.
\<close>

theorem predict_deterministic:
  assumes "validDAG m" and "callsSucceed impl"
    and "namesOk earlier m" and "valuesOk earlier m"
    and "namesOk inputData m" and "valuesOk inputData m"
    and "fuelBound m \<le> fuel"
  shows "\<exists>out0 out m1 m2 m3.
     predict impl fuel earlier m = Some (Inr out0, m1)
     \<and> predict impl fuel inputData m1 = Some (Inr out, m2)
     \<and> predict impl fuel inputData m = Some (Inr out, m3)
     \<and> (earlier = inputData \<longrightarrow> out0 = out)"
proof -
  from predict_history[OF assms(1,2,3,4,7) sameModel_refl] obtain out0 m1 where
    a: "predict impl fuel earlier m = Some (Inr out0, m1)" and s: "sameModel m m1" by blast
  from predict_history[OF assms(1,2,5,6,7) s] obtain out m3 m2 where
    b: "predict impl fuel inputData m = Some (Inr out, m3)"
    and c: "predict impl fuel inputData m1 = Some (Inr out, m2)" by blast
  from a b have "earlier = inputData \<longrightarrow> out0 = out" by auto
  with a b c show ?thesis by blast
qed

theorem predict_deterministic_witness:
  "validDAG diamondModel \<and> callsSucceed exampleImpl
   \<and> namesOk diamondInput diamondModel \<and> valuesOk diamondInput diamondModel
   \<and> fuelBound diamondModel \<le> 7
   \<and> (\<exists>out m1 m2. predict exampleImpl 7 diamondInput diamondModel = Some (Inr out, m1)
        \<and> predict exampleImpl 7 diamondInput m1 = Some (Inr out, m2))"
proof -
  have f: "fuelBound diamondModel \<le> 7" by (simp add: diamond_fuel)
  from predict_deterministic[OF diamond_valid exampleImpl_succeeds diamond_names diamond_values
      diamond_names diamond_values f]
  obtain out0 out m1 m2 where
    "predict exampleImpl 7 diamondInput diamondModel = Some (Inr out0, m1)"
    "predict exampleImpl 7 diamondInput m1 = Some (Inr out, m2)" "out0 = out" by blast
  then have "\<exists>out m1 m2. predict exampleImpl 7 diamondInput diamondModel = Some (Inr out, m1)
        \<and> predict exampleImpl 7 diamondInput m1 = Some (Inr out, m2)" by blast
  with diamond_valid exampleImpl_succeeds diamond_names diamond_values f show ?thesis by blast
qed

end
